theory Spec2Isabelle
  imports Complex_Main "HOL-Library.AList"
begin

section \<open>Network interception cache layer of the optimized Playwright specs\<close>

text \<open>
  The three optimized specs (\<^verbatim>\<open>tests/amazon-optimized.spec.js\<close>,
  \<^verbatim>\<open>outside-files/tests/airbnb-optimized.spec.js\<close>,
  \<^verbatim>\<open>outside-files/tests/wikipedia-optimized.spec.js\<close>) carry the same module-level
  cache, eviction routine, snapshot load/flush and \<^verbatim>\<open>page.route\<close> handler; they differ only
  in the regular expression of \<^verbatim>\<open>isDynamic\<close>.  The embedding below follows that code line by
  line.  Strings are byte strings (a URL as serialized by the browser is ASCII), a
  \<^verbatim>\<open>Buffer\<close> is the list of its bytes, the module-level variables are the fields of one
  record that every operation takes and returns.
\<close>

subsection \<open>String helpers of the JavaScript library\<close>

text \<open>\<^verbatim>\<open>s.startsWith(p)\<close> and \<^verbatim>\<open>s.includes(p)\<close>.\<close>

definition startsWith :: "string \<Rightarrow> string \<Rightarrow> bool" where
  "startsWith s p = (take (length p) s = p)"

fun includes_str :: "string \<Rightarrow> string \<Rightarrow> bool" where
  "includes_str [] p = (p = [])"
| "includes_str (c # cs) p = (startsWith (c # cs) p \<or> includes_str cs p)"

text \<open>
  The \<^verbatim>\<open>i\<close> flag of a regular expression without the \<^verbatim>\<open>u\<close> flag folds the case of
  ASCII letters only; the patterns of the handler are written in lower case below.
\<close>

definition toLowerCase :: "char \<Rightarrow> char" where
  "toLowerCase c =
     (let n = (of_char c :: nat) in if 65 \<le> n \<and> n \<le> 90 then char_of (n + 32) else c)"

text \<open>\<^verbatim>\<open>/p1|p2|.../i.test(s)\<close> for literal alternatives.\<close>

definition test_i :: "string list \<Rightarrow> string \<Rightarrow> bool" where
  "test_i alternatives s = list_ex (includes_str (map toLowerCase s)) alternatives"

text \<open>
  \<^verbatim>\<open>/a.*b/i.test(s)\<close> for literals \<^verbatim>\<open>a\<close>, \<^verbatim>\<open>b\<close>: the dot matches every character but
  a line terminator.  \<open>dotStarThen b s\<close> says that \<^verbatim>\<open>.*b\<close> matches at the start of \<open>s\<close>.
\<close>

definition lineTerminator :: "char \<Rightarrow> bool" where
  "lineTerminator c = (c = CHR 0x0A \<or> c = CHR 0x0D)"

fun dotStarThen :: "string \<Rightarrow> string \<Rightarrow> bool" where
  "dotStarThen b [] = (b = [])"
| "dotStarThen b (c # cs) =
     (startsWith (c # cs) b \<or> (\<not> lineTerminator c \<and> dotStarThen b cs))"

fun matchGap :: "string \<Rightarrow> string \<Rightarrow> string \<Rightarrow> bool" where
  "matchGap a b [] = (a = [] \<and> b = [])"
| "matchGap a b (c # cs) =
     ((startsWith (c # cs) a \<and> dotStarThen b (drop (length a) (c # cs))) \<or> matchGap a b cs)"

definition test_gap_i :: "string \<Rightarrow> string \<Rightarrow> string \<Rightarrow> bool" where
  "test_gap_i a b s = matchGap a b (map toLowerCase s)"

subsection \<open>Base64 text of a buffer\<close>

text \<open>
  \<^verbatim>\<open>buf.toString('base64')\<close> and \<^verbatim>\<open>Buffer.from(text, 'base64')\<close> of Node, on the standard
  alphabet with \<^verbatim>\<open>=\<close> padding.  The decoder reads groups of four characters and stops at
  the padding.  It is Node's decoder on the text the encoder writes, which is the only
  text the handler stores; on text without padding or with characters outside the
  alphabet (possible only in a snapshot file written by something else) Node decodes
  leniently and \<open>fromBase64\<close> does not follow it.
\<close>

definition b64char :: "nat \<Rightarrow> char" where
  "b64char n =
     (if n < 26 then char_of (65 + n)
      else if n < 52 then char_of (71 + n)
      else if n < 62 then char_of (n - 4)
      else if n = 62 then CHR ''+'' else CHR ''/'')"

definition b64index :: "char \<Rightarrow> nat" where
  "b64index c =
     (let n = (of_char c :: nat) in
      if 65 \<le> n \<and> n \<le> 90 then n - 65
      else if 97 \<le> n \<and> n \<le> 122 then n - 71
      else if 48 \<le> n \<and> n \<le> 57 then n + 4
      else if c = CHR ''+'' then 62
      else if c = CHR ''/'' then 63 else 0)"

fun toBase64 :: "string \<Rightarrow> string" where
  "toBase64 [] = []"
| "toBase64 [a] =
     (let x = (of_char a :: nat) in
      [b64char (x div 4), b64char ((x mod 4) * 16), CHR ''='', CHR ''=''])"
| "toBase64 [a, b] =
     (let x = (of_char a :: nat); y = (of_char b :: nat) in
      [b64char (x div 4), b64char ((x mod 4) * 16 + y div 16),
       b64char ((y mod 16) * 4), CHR ''=''])"
| "toBase64 (a # b # c # rest) =
     (let x = (of_char a :: nat); y = (of_char b :: nat); z = (of_char c :: nat) in
      [b64char (x div 4), b64char ((x mod 4) * 16 + y div 16),
       b64char ((y mod 16) * 4 + z div 64), b64char (z mod 64)] @ toBase64 rest)"

fun fromBase64 :: "string \<Rightarrow> string" where
  "fromBase64 (p # q # r # s # rest) =
     (let i = b64index p; j = b64index q; k = b64index r; l = b64index s in
      if r = CHR ''='' then [char_of (i * 4 + j div 16)]
      else if s = CHR ''='' then [char_of (i * 4 + j div 16), char_of ((j mod 16) * 16 + k div 4)]
      else [char_of (i * 4 + j div 16), char_of ((j mod 16) * 16 + k div 4),
            char_of ((k mod 4) * 64 + l)] @ fromBase64 rest)"
| "fromBase64 _ = []"

subsection \<open>Data model\<close>

type_synonym headers = "(string \<times> string) list"

text \<open>
  The object \<^verbatim>\<open>{ status, headers, body }\<close> a fetch produces, and the cache entry
  \<^verbatim>\<open>{ status, headers, body, lastAccess }\<close>, whose body is base64 text.
\<close>

record response =
  status :: int
  headers :: headers
  body :: string

record cache_entry = response +
  lastAccess :: int

text \<open>
  A JavaScript object with string keys keeps them in insertion order; no key occurs
  twice.  \<^verbatim>\<open>httpCache[key] = v\<close> is \<^const>\<open>AList.update\<close> (the key keeps its place, a
  new key goes last), \<^verbatim>\<open>delete httpCache[key]\<close> is \<^const>\<open>AList.delete\<close>,
  \<^verbatim>\<open>httpCache[key]\<close> is \<^const>\<open>map_of\<close>.
\<close>

type_synonym cache = "(string \<times> cache_entry) list"

record cache_stats =
  hits :: nat
  misses :: nat
  writes :: nat
  evictions :: nat

record dedup_stats =
  duplicates :: nat
  unique :: nat

record domain_block_stats =
  blocked :: nat

text \<open>
  The constants read from the environment at module load.  \<open>MAX_CACHE_ENTRIES\<close> is the
  result of \<^verbatim>\<open>parseInt\<close>, \<open>MAX_CACHE_SIZE_MB\<close> the number \<^verbatim>\<open>parseFloat\<close> returns (a
  double is a rational, and so is a byte count divided by \<open>2^20\<close>, hence the comparison
  of the source is the comparison of the reals).  A setting that parses to NaN is outside
  the model.
\<close>

record config =
  CACHE_ENABLED :: bool
  CACHE_CLEAR :: bool
  MAX_CACHE_ENTRIES :: int
  MAX_CACHE_SIZE_MB :: real
  DEDUP_ENABLED :: bool
  DOMAIN_BLOCKING_ENABLED :: bool

text \<open>The three specs; the handler depends on the spec through \<open>isDynamic\<close> only.\<close>

datatype target = Amazon | Airbnb | Wikipedia

record request =
  url :: string
  method_str :: string
  resourceType :: string

text \<open>
  What \<^verbatim>\<open>await route.fetch()\<close> followed by \<^verbatim>\<open>await response.body()\<close> can give the
  anonymous async function: an exception (the awaited promise rejects; nothing in the
  function catches it), a falsy response, or a response with its status, headers and
  body.
\<close>

datatype fetch_outcome =
    FetchRejected
  | FetchEmpty
  | FetchResponse int headers string

text \<open>
  The promise \<^verbatim>\<open>requestPromise\<close> of a request: pending, resolved with \<^verbatim>\<open>null\<close> or a
  result object, or rejected.  A promise is named by the number of the route whose
  handler created it.
\<close>

datatype promise_state =
    Pending
  | Resolved "response option"
  | Rejected

text \<open>
  What has happened to an intercepted route so far: \<^verbatim>\<open>route.abort()\<close>,
  \<^verbatim>\<open>route.continue()\<close>, \<^verbatim>\<open>route.fulfill({status, headers, body})\<close>, the handler
  suspended at \<^verbatim>\<open>await requestPromise\<close> with its own \<^verbatim>\<open>route.fetch()\<close> in flight, the
  handler suspended at \<^verbatim>\<open>await pendingRequests.get(key)\<close>, or the handler ended by an
  uncaught exception.
\<close>

datatype route_status =
    Aborted
  | Continued
  | Fulfilled int headers string
  | AwaitingFetch string
  | AwaitingPending nat
  | Threw

datatype file_content = Garbage | Json cache

text \<open>
  The module-level variables, then what the environment holds: the promises, the
  routes, the log of \<^verbatim>\<open>route.fetch()\<close> calls (route and URL) and the content of
  \<^verbatim>\<open>CACHE_FILE\<close> (\<open>None\<close> when the file does not exist).  \<^verbatim>\<open>JSON.parse\<close> of what
  \<^verbatim>\<open>JSON.stringify\<close> wrote gives the object back, so a well-formed file is modelled by the
  object it holds (\<open>Json\<close>); \<open>Garbage\<close> is a file that \<^verbatim>\<open>JSON.parse\<close> rejects.
\<close>

record state =
  httpCache :: cache
  cacheStats :: cache_stats
  pendingRequests :: "string \<rightharpoonup> nat"
  dedupStats :: dedup_stats
  domainBlockStats :: domain_block_stats
  cacheDirty :: bool
  promises :: "nat \<rightharpoonup> promise_state"
  routes :: "nat \<rightharpoonup> route_status"
  upstream :: "(nat \<times> string) list"
  disk :: "file_content option"

subsection \<open>\<^verbatim>\<open>getCacheSizeMB\<close>: the size of \<^verbatim>\<open>JSON.stringify(httpCache)\<close>\<close>

text \<open>
  \<^verbatim>\<open>JSON.stringify\<close> without indentation on the shape of the cache: an object of
  entries, each an object of two integers, an object of strings and a string.  Strings
  are quoted with the escapes of ECMAScript's QuoteJSONString.
\<close>

definition dq :: char where
  "dq = CHR 0x22"

definition hexDigit :: "nat \<Rightarrow> char" where
  "hexDigit n = (if n < 10 then char_of (48 + n) else char_of (87 + n))"

definition json_escape :: "char \<Rightarrow> string" where
  "json_escape c =
     (let n = (of_char c :: nat) in
      if c = dq then [CHR 0x5C, dq]
      else if c = CHR 0x5C then [CHR 0x5C, CHR 0x5C]
      else if n = 8 then [CHR 0x5C, CHR ''b'']
      else if n = 9 then [CHR 0x5C, CHR ''t'']
      else if n = 10 then [CHR 0x5C, CHR ''n'']
      else if n = 12 then [CHR 0x5C, CHR ''f'']
      else if n = 13 then [CHR 0x5C, CHR ''r'']
      else if n < 32 then [CHR 0x5C, CHR ''u'', CHR ''0'', CHR ''0'', hexDigit (n div 16), hexDigit (n mod 16)]
      else [c])"

definition json_string :: "string \<Rightarrow> string" where
  "json_string s = dq # concat (map json_escape s) @ [dq]"

fun decimal :: "nat \<Rightarrow> string" where
  "decimal n = (if n < 10 then [char_of (48 + n)] else decimal (n div 10) @ [char_of (48 + n mod 10)])"

declare decimal.simps [simp del]

definition json_number :: "int \<Rightarrow> string" where
  "json_number i = (if i < 0 then CHR ''-'' # decimal (nat (- i)) else decimal (nat i))"

fun join_with :: "string \<Rightarrow> string list \<Rightarrow> string" where
  "join_with sep [] = []"
| "join_with sep [x] = x"
| "join_with sep (x # y # ys) = x @ sep @ join_with sep (y # ys)"

definition json_object :: "(string \<times> string) list \<Rightarrow> string" where
  "json_object members =
     ''{'' @ join_with '','' (map (\<lambda>(k, v). json_string k @ '':'' @ v) members) @ ''}''"

definition json_headers :: "headers \<Rightarrow> string" where
  "json_headers hs = json_object (map (\<lambda>(k, v). (k, json_string v)) hs)"

definition json_entry :: "cache_entry \<Rightarrow> string" where
  "json_entry e =
     json_object
       [(''status'', json_number (status e)),
        (''headers'', json_headers (headers e)),
        (''body'', json_string (body e)),
        (''lastAccess'', json_number (lastAccess e))]"

definition stringify :: "cache \<Rightarrow> string" where
  "stringify c = json_object (map (\<lambda>(k, e). (k, json_entry e)) c)"

definition getCacheSizeMB :: "cache \<Rightarrow> real" where
  "getCacheSizeMB c = real (length (stringify c)) / (1024 * 1024)"

subsection \<open>\<^verbatim>\<open>evictLRU\<close>\<close>

text \<open>
  The loop condition \<^verbatim>\<open>stillNeedsEviction\<close>, which is also the pair of tests before the
  sort: \<^verbatim>\<open>Object.keys(httpCache).length >= MAX_CACHE_ENTRIES || getCacheSizeMB() >= MAX_CACHE_SIZE_MB\<close>.
\<close>

definition needsEvictionByCount :: "config \<Rightarrow> cache \<Rightarrow> bool" where
  "needsEvictionByCount cfg c = (int (length c) \<ge> MAX_CACHE_ENTRIES cfg)"

definition needsEvictionBySize :: "config \<Rightarrow> cache \<Rightarrow> bool" where
  "needsEvictionBySize cfg c = (getCacheSizeMB c \<ge> MAX_CACHE_SIZE_MB cfg)"

definition stillNeedsEviction :: "config \<Rightarrow> cache \<Rightarrow> bool" where
  "stillNeedsEviction cfg c = (needsEvictionByCount cfg c \<or> needsEvictionBySize cfg c)"

text \<open>
  \<^verbatim>\<open>entries.sort((a, b) => (a[1].lastAccess || 0) - (b[1].lastAccess || 0))\<close>: the sort of
  the language is stable, and so is \<^const>\<open>sort_key\<close>; on a number \<^verbatim>\<open>x || 0\<close> is \<open>x\<close>.
\<close>

definition sortedEntries :: "cache \<Rightarrow> cache" where
  "sortedEntries c = sort_key (\<lambda>(k, e). lastAccess e) c"

text \<open>
  The \<^verbatim>\<open>for (const [key] of entries)\<close> loop over the sorted keys: the cache as it is now,
  and \<^verbatim>\<open>evicted\<close>.
\<close>

fun evictLoop :: "config \<Rightarrow> string list \<Rightarrow> cache \<Rightarrow> nat \<Rightarrow> cache \<times> nat" where
  "evictLoop cfg [] c evicted = (c, evicted)"
| "evictLoop cfg (key # keys) c evicted =
     (if stillNeedsEviction cfg c
      then evictLoop cfg keys (AList.delete key c) (evicted + 1)
      else (c, evicted))"

definition evictLRU :: "config \<Rightarrow> state \<Rightarrow> state" where
  "evictLRU cfg s =
     (let entries = httpCache s in
      if \<not> needsEvictionByCount cfg entries \<and> \<not> needsEvictionBySize cfg entries then s
      else
        (case evictLoop cfg (map fst (sortedEntries entries)) (httpCache s) 0 of
           (c, evicted) \<Rightarrow>
             if evicted > 0
             then s\<lparr>httpCache := c,
                    cacheStats := (cacheStats s)\<lparr>evictions := evictions (cacheStats s) + evicted\<rparr>,
                    cacheDirty := True\<rparr>
             else s\<lparr>httpCache := c\<rparr>))"

subsection \<open>Loading and flushing the snapshot\<close>

definition initial :: "file_content option \<Rightarrow> state" where
  "initial file =
     \<lparr>httpCache = [],
      cacheStats = \<lparr>hits = 0, misses = 0, writes = 0, evictions = 0\<rparr>,
      pendingRequests = Map.empty,
      dedupStats = \<lparr>duplicates = 0, unique = 0\<rparr>,
      domainBlockStats = \<lparr>blocked = 0\<rparr>,
      cacheDirty = False,
      promises = Map.empty,
      routes = Map.empty,
      upstream = [],
      disk = file\<rparr>"

text \<open>
  The \<^verbatim>\<open>if (CACHE_ENABLED) { try { ... } catch { httpCache = {} } }\<close> block that runs when
  the module is loaded, one clock reading for the whole (synchronous) loop:
  \<^verbatim>\<open>httpCache[key] = { ...value, lastAccess: value.lastAccess || Date.now() }\<close>.
\<close>

definition loadEntry :: "int \<Rightarrow> cache \<Rightarrow> string \<times> cache_entry \<Rightarrow> cache" where
  "loadEntry now c kv =
     (case kv of (key, v) \<Rightarrow>
        AList.update key (v\<lparr>lastAccess := (if lastAccess v = 0 then now else lastAccess v)\<rparr>) c)"

definition loadCache :: "config \<Rightarrow> int \<Rightarrow> file_content option \<Rightarrow> state" where
  "loadCache cfg now file =
     (if CACHE_ENABLED cfg then
        (let file1 = (if CACHE_CLEAR cfg \<and> file \<noteq> None then None else file) in
         case file1 of
           None \<Rightarrow> initial file1
         | Some Garbage \<Rightarrow> initial file1
         | Some (Json loadedCache) \<Rightarrow>
             evictLRU cfg ((initial file1)\<lparr>httpCache := foldl (loadEntry now) [] loadedCache\<rparr>))
      else initial file)"

text \<open>
  \<^verbatim>\<open>writeCacheToDisk\<close>; \<open>ok\<close> says whether \<^verbatim>\<open>mkdirSync\<close> and \<^verbatim>\<open>writeFile\<close> succeed (a
  failure is caught and only logged).
\<close>

definition writeCacheToDisk :: "config \<Rightarrow> bool \<Rightarrow> state \<Rightarrow> state" where
  "writeCacheToDisk cfg ok s =
     (if \<not> cacheDirty s \<or> \<not> CACHE_ENABLED cfg then s
      else if ok
      then s\<lparr>disk := Some (Json (httpCache s)),
             cacheDirty := False,
             cacheStats := (cacheStats s)\<lparr>writes := writes (cacheStats s) + 1\<rparr>\<rparr>
      else s)"

subsection \<open>Classification of a request\<close>

definition blockedResourceTypes :: "string list" where
  "blockedResourceTypes = [''image'', ''stylesheet'', ''font'', ''media'']"

definition BLOCKED_DOMAINS :: "string list" where
  "BLOCKED_DOMAINS =
     [''google-analytics.com'', ''googletagmanager.com'', ''analytics.google.com'',
      ''doubleclick.net'', ''googleadservices.com'', ''facebook.com/tr'', ''facebook.net'',
      ''scorecardresearch.com'', ''quantserve.com'', ''adservice.google'',
      ''googlesyndication.com'', ''advertising.com'', ''adform.net'', ''adsafeprotected.com'',
      ''adnxs.com'', ''amazon-adsystem.com'', ''bing.com/analytics'', ''hotjar.com'',
      ''mixpanel.com'', ''segment.io'', ''newrelic.com'', ''optimizely.com'', ''fullstory.com'',
      ''mouseflow.com'', ''crazyegg.com'', ''clarity.microsoft.com'']"

text \<open>\<^verbatim>\<open>BLOCKED_DOMAINS.some(domain => url.includes(domain))\<close>\<close>

definition isBlockedDomain :: "string \<Rightarrow> bool" where
  "isBlockedDomain u = list_ex (includes_str u) BLOCKED_DOMAINS"

definition isGet :: "request \<Rightarrow> bool" where
  "isGet req = (method_str req = ''GET'')"

definition isDataOrBlob :: "string \<Rightarrow> bool" where
  "isDataOrBlob u = (startsWith u ''data:'' \<or> startsWith u ''blob:'')"

text \<open>
  \<^verbatim>\<open>/\/login|\/signin|\/logout|\/auth/i.test(url) || /token=|session=|auth=/i.test(url)\<close>
\<close>

definition isAuthLike :: "string \<Rightarrow> bool" where
  "isAuthLike u =
     (test_i [''/login'', ''/signin'', ''/logout'', ''/auth''] u \<or>
      test_i [''token='', ''session='', ''auth=''] u)"

text \<open>
  Amazon: \<^verbatim>\<open>/\/api\/|suggestions|search|recommendations/i\<close>;
  Airbnb: \<^verbatim>\<open>/\/api\/v1\/|search_results|recommendations/i\<close>;
  Wikipedia: \<^verbatim>\<open>/Special:Random|Special:RecentChanges|Special:Watchlist/i.test(url) ||
  /action=query.*titles=/i.test(url) && /format=json/i.test(url)\<close>.
\<close>

fun isDynamic :: "target \<Rightarrow> string \<Rightarrow> bool" where
  "isDynamic Amazon u = test_i [''/api/'', ''suggestions'', ''search'', ''recommendations''] u"
| "isDynamic Airbnb u = test_i [''/api/v1/'', ''search_results'', ''recommendations''] u"
| "isDynamic Wikipedia u =
     (test_i [''special:random'', ''special:recentchanges'', ''special:watchlist''] u \<or>
      (test_gap_i ''action=query'' ''titles='' u \<and> test_i [''format=json''] u))"

text \<open>The condition that guards the cache block of the handler.\<close>

definition cacheable :: "config \<Rightarrow> target \<Rightarrow> request \<Rightarrow> bool" where
  "cacheable cfg tgt req =
     (CACHE_ENABLED cfg \<and> isGet req \<and> \<not> isDataOrBlob (url req) \<and>
      \<not> isAuthLike (url req) \<and> \<not> isDynamic tgt (url req))"

subsection \<open>The route handler\<close>

text \<open>
  How a handler goes on after \<^verbatim>\<open>await\<close> of a promise in the given state.  The owner
  tests \<^verbatim>\<open>!response\<close> and calls \<^verbatim>\<open>route.continue()\<close>; the waiter reads
  \<^verbatim>\<open>pendingResponse.status\<close> at once, a TypeError when the value is \<^verbatim>\<open>null\<close>.  A
  rejected promise throws at the \<^verbatim>\<open>await\<close> in both.
\<close>

fun ownerResumes :: "string \<Rightarrow> promise_state \<Rightarrow> route_status" where
  "ownerResumes key Pending = AwaitingFetch key"
| "ownerResumes key Rejected = Threw"
| "ownerResumes key (Resolved None) = Continued"
| "ownerResumes key (Resolved (Some r)) = Fulfilled (status r) (headers r) (body r)"

fun waiterResumes :: "nat \<Rightarrow> promise_state \<Rightarrow> route_status" where
  "waiterResumes p Pending = AwaitingPending p"
| "waiterResumes p Rejected = Threw"
| "waiterResumes p (Resolved None) = Threw"
| "waiterResumes p (Resolved (Some r)) = Fulfilled (status r) (headers r) (body r)"

definition promiseState :: "state \<Rightarrow> nat \<Rightarrow> promise_state" where
  "promiseState s p = (case promises s p of None \<Rightarrow> Pending | Some ps \<Rightarrow> ps)"

definition setRoute :: "nat \<Rightarrow> route_status \<Rightarrow> state \<Rightarrow> state" where
  "setRoute rid st s = s\<lparr>routes := (routes s)(rid \<mapsto> st)\<rparr>"

text \<open>
  The handler of route \<open>rid\<close> from its start to its first suspension; nothing awaited
  before that point suspends it with shared state still to be read (\<^verbatim>\<open>await route.fulfill\<close>
  and \<^verbatim>\<open>await route.continue\<close> are followed by \<^verbatim>\<open>return\<close>).  The anonymous async
  function runs up to \<^verbatim>\<open>await route.fetch()\<close> inside the call, so the fetch is issued
  and \<^verbatim>\<open>pendingRequests.set(key, requestPromise)\<close> follows with no suspension between
  the \<^verbatim>\<open>has\<close> test and the \<^verbatim>\<open>set\<close>.  \<open>now\<close> is what \<^verbatim>\<open>Date.now()\<close> returns.
\<close>

definition handler :: "config \<Rightarrow> target \<Rightarrow> nat \<Rightarrow> request \<Rightarrow> int \<Rightarrow> state \<Rightarrow> state" where
  "handler cfg tgt rid req now s =
     (if resourceType req \<in> set blockedResourceTypes then setRoute rid Aborted s
      else if DOMAIN_BLOCKING_ENABLED cfg \<and> isBlockedDomain (url req)
      then setRoute rid Aborted
             (s\<lparr>domainBlockStats :=
                  (domainBlockStats s)\<lparr>blocked := blocked (domainBlockStats s) + 1\<rparr>\<rparr>)
      else if cacheable cfg tgt req then
        (let key = url req in
         case map_of (httpCache s) key of
           Some cached \<Rightarrow>
             setRoute rid (Fulfilled (status cached) (headers cached) (fromBase64 (body cached)))
               (s\<lparr>cacheStats := (cacheStats s)\<lparr>hits := hits (cacheStats s) + 1\<rparr>,
                  httpCache := AList.update key (cached\<lparr>lastAccess := now\<rparr>) (httpCache s)\<rparr>)
         | None \<Rightarrow>
             (case (if DEDUP_ENABLED cfg then pendingRequests s key else None) of
                Some p \<Rightarrow>
                  setRoute rid (waiterResumes p (promiseState s p))
                    (s\<lparr>dedupStats :=
                         (dedupStats s)\<lparr>duplicates := duplicates (dedupStats s) + 1\<rparr>\<rparr>)
              | None \<Rightarrow>
                  s\<lparr>cacheStats := (cacheStats s)\<lparr>misses := misses (cacheStats s) + 1\<rparr>,
                    dedupStats := (dedupStats s)\<lparr>unique := unique (dedupStats s) + 1\<rparr>,
                    upstream := upstream s @ [(rid, key)],
                    promises := (promises s)(rid \<mapsto> Pending),
                    pendingRequests := (pendingRequests s)(key \<mapsto> rid),
                    routes := (routes s)(rid \<mapsto> AwaitingFetch key)\<rparr>))
      else setRoute rid Continued s)"

text \<open>
  The block \<^verbatim>\<open>if (status >= 200 && status < 400) { evictLRU(); httpCache[key] = {...};
  cacheDirty = true; }\<close> of the anonymous async function.
\<close>

definition put :: "config \<Rightarrow> string \<Rightarrow> int \<Rightarrow> headers \<Rightarrow> string \<Rightarrow> int \<Rightarrow> state \<Rightarrow> state" where
  "put cfg key st hs bodyBuffer now s =
     (let s1 = evictLRU cfg s in
      s1\<lparr>httpCache :=
           AList.update key
             \<lparr>status = st, headers = hs, body = toBase64 bodyBuffer, lastAccess = now\<rparr>
             (httpCache s1),
         cacheDirty := True\<rparr>)"

text \<open>
  The rest of the anonymous async function, from the point where \<^verbatim>\<open>route.fetch()\<close> and
  \<^verbatim>\<open>response.body()\<close> have settled to its return: the new state and how
  \<^verbatim>\<open>requestPromise\<close> settles.  An exception leaves the function before
  \<^verbatim>\<open>pendingRequests.delete(key)\<close>.
\<close>

definition requestPromise :: "config \<Rightarrow> string \<Rightarrow> fetch_outcome \<Rightarrow> int \<Rightarrow> state \<Rightarrow> state \<times> promise_state" where
  "requestPromise cfg key outcome now s =
     (case outcome of
        FetchRejected \<Rightarrow> (s, Rejected)
      | FetchEmpty \<Rightarrow> (s\<lparr>pendingRequests := (pendingRequests s)(key := None)\<rparr>, Resolved None)
      | FetchResponse st hs bodyBuffer \<Rightarrow>
          (let s1 = (if st \<ge> 200 \<and> st < 400 then put cfg key st hs bodyBuffer now s else s) in
           (s1\<lparr>pendingRequests := (pendingRequests s1)(key := None)\<rparr>,
            Resolved (Some \<lparr>status = st, headers = hs, body = bodyBuffer\<rparr>))))"

text \<open>
  The fetch of route \<open>rid\<close> settles: the anonymous function runs to its end,
  \<^verbatim>\<open>requestPromise\<close> settles, and the handlers suspended on it (the owner and every
  waiter) resume in the same turn of the event loop; they touch no shared variable.
\<close>

definition fetchSettles :: "config \<Rightarrow> nat \<Rightarrow> fetch_outcome \<Rightarrow> int \<Rightarrow> state \<Rightarrow> state" where
  "fetchSettles cfg rid outcome now s =
     (case routes s rid of
        Some (AwaitingFetch key) \<Rightarrow>
          (case requestPromise cfg key outcome now s of
             (s1, ps) \<Rightarrow>
               s1\<lparr>promises := (promises s1)(rid \<mapsto> ps),
                  routes :=
                    (\<lambda>r. if r = rid then Some (ownerResumes key ps)
                         else if routes s1 r = Some (AwaitingPending rid)
                         then Some (waiterResumes rid ps)
                         else routes s1 r)\<rparr>)
      | _ \<Rightarrow> s)"

text \<open>
  A run of the page: requests are intercepted (each route once) and fetches settle, in
  any order.  The run ends where the test calls \<^verbatim>\<open>writeCacheToDisk()\<close> and
  \<^verbatim>\<open>pendingRequests.clear()\<close>, its last statements before the statistics are logged.
\<close>

datatype event =
    Intercept nat request int
  | Settle nat fetch_outcome int

fun step :: "config \<Rightarrow> target \<Rightarrow> state \<Rightarrow> event \<Rightarrow> state" where
  "step cfg tgt s (Intercept rid req now) =
     (if routes s rid = None then handler cfg tgt rid req now s else s)"
| "step cfg tgt s (Settle rid outcome now) = fetchSettles cfg rid outcome now s"

definition run :: "config \<Rightarrow> target \<Rightarrow> state \<Rightarrow> event list \<Rightarrow> state" where
  "run cfg tgt s evs = foldl (step cfg tgt) s evs"

subsection \<open>Concrete configurations, requests and entries\<close>

text \<open>
  The configuration of a run with no environment variable set (100 entries, 50 MB,
  every feature on), and the inputs at which the theorems below are instantiated.
\<close>

definition defaultConfig :: config where
  "defaultConfig =
     \<lparr>CACHE_ENABLED = True, CACHE_CLEAR = False, MAX_CACHE_ENTRIES = 100,
      MAX_CACHE_SIZE_MB = 50, DEDUP_ENABLED = True, DOMAIN_BLOCKING_ENABLED = True\<rparr>"

definition pageRequest :: request where
  "pageRequest =
     \<lparr>url = ''https://www.amazon.com/gp/bestsellers'', method_str = ''GET'',
      resourceType = ''document''\<rparr>"

definition loginImageRequest :: request where
  "loginImageRequest =
     \<lparr>url = ''https://www.amazon.com/login/logo.png'', method_str = ''GET'',
      resourceType = ''image''\<rparr>"

definition loginRequest :: request where
  "loginRequest =
     \<lparr>url = ''https://www.amazon.com/login'', method_str = ''GET'',
      resourceType = ''document''\<rparr>"

definition wikipediaSearchRequest :: request where
  "wikipediaSearchRequest =
     \<lparr>url = ''https://en.wikipedia.org/w/index.php?search=Deep+learning'', method_str = ''GET'',
      resourceType = ''document''\<rparr>"

definition trackerRequest :: request where
  "trackerRequest =
     \<lparr>url = ''https://www.google-analytics.com/collect'', method_str = ''GET'',
      resourceType = ''script''\<rparr>"

definition entryAt :: "int \<Rightarrow> cache_entry" where
  "entryAt t = \<lparr>status = 200, headers = [(''content-type'', ''text/html'')],
                body = toBase64 ''ok'', lastAccess = t\<rparr>"

definition withCache :: "cache \<Rightarrow> state" where
  "withCache c = (initial None)\<lparr>httpCache := c\<rparr>"

definition lruConfig :: config where
  "lruConfig = defaultConfig\<lparr>MAX_CACHE_ENTRIES := 3\<rparr>"

definition lruState :: state where
  "lruState = withCache [(''c'', entryAt 30), (''a'', entryAt 10), (''b'', entryAt 20)]"

definition hitState :: state where
  "hitState = withCache [(url pageRequest, entryAt 1), (''b'', entryAt 2)]"

text \<open>
  The state after two cacheable responses have been stored under a ceiling of two
  entries.
\<close>

definition fullState :: state where
  "fullState =
     put (defaultConfig\<lparr>MAX_CACHE_ENTRIES := 2\<rparr>) ''https://www.amazon.com/b'' 200 [] ''two'' 20
       (put (defaultConfig\<lparr>MAX_CACHE_ENTRIES := 2\<rparr>) ''https://www.amazon.com/a'' 200 [] ''one'' 10
          (initial None))"

text \<open>
  Runs of the page used below: a first request in flight; a fetch that is rejected and
  an identical request after it; a second identical request that joins the fetch of the
  first, which then resolves empty or is rejected.
\<close>

definition afterFirstRequest :: state where
  "afterFirstRequest = handler defaultConfig Amazon 1 pageRequest 10 (initial None)"

definition rejectedThenRetried :: "event list" where
  "rejectedThenRetried =
     [Intercept 1 pageRequest 10, Settle 1 FetchRejected 11, Intercept 2 pageRequest 12]"

definition emptyWithWaiter :: "event list" where
  "emptyWithWaiter =
     [Intercept 1 pageRequest 10, Intercept 2 pageRequest 11, Settle 1 FetchEmpty 12]"

definition rejectedWithWaiter :: "event list" where
  "rejectedWithWaiter =
     [Intercept 1 pageRequest 10, Intercept 2 pageRequest 11, Settle 1 FetchRejected 12]"

text \<open>
  A request for another page, and a run in which four further requests for the first
  page arrive among a request for the other page and the settling of its fetch.
\<close>

definition helpRequest :: request where
  "helpRequest =
     \<lparr>url = ''https://www.amazon.com/gp/help'', method_str = ''GET'',
      resourceType = ''document''\<rparr>"

definition amongOtherEvents :: "event list" where
  "amongOtherEvents =
     [Intercept 2 pageRequest 11, Intercept 6 helpRequest 12, Intercept 3 pageRequest 13,
      Settle 6 (FetchResponse 200 [] ''help'') 14, Intercept 4 pageRequest 15,
      Intercept 5 pageRequest 16]"



section \<open>Properties\<close>

subsection \<open>Base64 round trip\<close>

lemma b64index_b64char: "n < 64 \<Longrightarrow> b64index (b64char n) = n"
  by (auto simp: b64index_def b64char_def Let_def)

lemma b64char_not_pad: "n < 64 \<Longrightarrow> b64char n \<noteq> CHR ''=''"
proof
  assume n: "n < 64" and eq: "b64char n = CHR ''=''"
  then have "(of_char (b64char n) :: nat) = 61" by simp
  then show False using n by (auto simp: b64char_def split: if_splits)
qed

lemma of_char_lt_256: "(of_char c :: nat) < 256"
  by (metis of_char_mod_256 mod_less_divisor zero_less_numeral)

lemma qr_div: "r < n \<Longrightarrow> (q * n + r) div n = (q::nat)"
  by simp

lemma qr_mod: "r < n \<Longrightarrow> (q * n + r) mod n = (r::nat)"
  by simp

lemma sextet_bounds:
  fixes x y z :: nat
  assumes "x < 256" "y < 256" "z < 256"
  shows "x div 4 < 64" "(x mod 4) * 16 + y div 16 < 64" "(y mod 16) * 4 + z div 64 < 64"
    "z mod 64 < 64" "(x mod 4) * 16 < 64" "(y mod 16) * 4 < 64"
proof -
  have a: "x mod 4 < 4" "y mod 16 < 16" "y div 16 < 16" "z div 64 < 4"
    using assms by simp_all
  show "x div 4 < 64" using assms by simp
  show "(x mod 4) * 16 + y div 16 < 64" using a(1,3) by linarith
  show "(y mod 16) * 4 + z div 64 < 64" using a(2,4) by linarith
  show "z mod 64 < 64" by simp
  show "(x mod 4) * 16 < 64" using a(1) by linarith
  show "(y mod 16) * 4 < 64" using a(2) by linarith
qed

lemma byte1: "y < 256 \<Longrightarrow> (x div 4) * 4 + ((x mod 4) * 16 + y div 16) div 16 = (x::nat)"
proof -
  assume "y < 256"
  then have "y div 16 < 16" by simp
  then have "((x mod 4) * 16 + y div 16) div 16 = x mod 4" by (rule qr_div)
  then show ?thesis by simp
qed

lemma byte1': "(x div 4) * 4 + ((x mod 4) * 16) div 16 = (x::nat)"
  by simp

lemma byte2: "y < 256 \<Longrightarrow> z < 256 \<Longrightarrow> (((x mod 4) * 16 + y div 16) mod 16) * 16 + ((y mod 16) * 4 + z div 64) div 4 = (y::nat)"
proof -
  assume "y < 256" "z < 256"
  then have a: "y div 16 < 16" "z div 64 < 4" by simp_all
  have "((x mod 4) * 16 + y div 16) mod 16 = y div 16" using a(1) by (rule qr_mod)
  moreover have "((y mod 16) * 4 + z div 64) div 4 = y mod 16" using a(2) by (rule qr_div)
  ultimately show ?thesis by simp
qed

lemma byte2': "y < 256 \<Longrightarrow> (((x mod 4) * 16 + y div 16) mod 16) * 16 + ((y mod 16) * 4) div 4 = (y::nat)"
proof -
  assume "y < 256"
  then have a: "y div 16 < 16" by simp
  have "((x mod 4) * 16 + y div 16) mod 16 = y div 16" using a(1) by (rule qr_mod)
  then show ?thesis by simp
qed

lemma byte3: "z < 256 \<Longrightarrow> (((y mod 16) * 4 + z div 64) mod 4) * 64 + z mod 64 = (z::nat)"
proof -
  assume "z < 256"
  then have a: "z div 64 < 4" by simp
  have "((y mod 16) * 4 + z div 64) mod 4 = z div 64" using a by (rule qr_mod)
  then show ?thesis by simp
qed


lemma decode_group:
  fixes a b c :: char
  defines "x \<equiv> (of_char a :: nat)" and "y \<equiv> (of_char b :: nat)" and "z \<equiv> (of_char c :: nat)"
  shows "fromBase64 (b64char (x div 4) # b64char ((x mod 4) * 16 + y div 16) #
           b64char ((y mod 16) * 4 + z div 64) # b64char (z mod 64) # rest) =
         a # b # c # fromBase64 rest"
proof -
  have b: "x < 256" "y < 256" "z < 256" unfolding x_def y_def z_def by (rule of_char_lt_256)+
  note sb = sextet_bounds[OF b]
  have i: "b64index (b64char (x div 4)) = x div 4"
    "b64index (b64char ((x mod 4) * 16 + y div 16)) = (x mod 4) * 16 + y div 16"
    "b64index (b64char ((y mod 16) * 4 + z div 64)) = (y mod 16) * 4 + z div 64"
    "b64index (b64char (z mod 64)) = z mod 64"
    using sb by (simp_all only: b64index_b64char)
  have p: "b64char ((y mod 16) * 4 + z div 64) \<noteq> CHR ''=''" "b64char (z mod 64) \<noteq> CHR ''=''"
    using sb by (simp_all only: b64char_not_pad not_False_eq_True)
  have c: "char_of x = a" "char_of y = b" "char_of z = c"
    unfolding x_def y_def z_def by simp_all
  show ?thesis
    by (simp only: fromBase64.simps Let_def i p if_False byte1[OF b(2)] byte2[OF b(2,3)] byte3[OF b(3)] c append_Cons append_Nil)
qed

lemma decode_last1:
  fixes a :: char
  defines "x \<equiv> (of_char a :: nat)"
  shows "fromBase64 [b64char (x div 4), b64char ((x mod 4) * 16), CHR ''='', CHR ''=''] = [a]"
proof -
  have b: "x < 256" unfolding x_def by (rule of_char_lt_256)
  note sb = sextet_bounds[OF b b b]
  have i: "b64index (b64char (x div 4)) = x div 4"
    "b64index (b64char ((x mod 4) * 16)) = (x mod 4) * 16"
    using sb by (simp_all only: b64index_b64char)
  have c: "char_of x = a" unfolding x_def by simp
  show ?thesis
    by (simp only: fromBase64.simps Let_def i if_True byte1' c refl simp_thms)
qed

lemma decode_last2:
  fixes a b :: char
  defines "x \<equiv> (of_char a :: nat)" and "y \<equiv> (of_char b :: nat)"
  shows "fromBase64 [b64char (x div 4), b64char ((x mod 4) * 16 + y div 16),
           b64char ((y mod 16) * 4), CHR ''=''] = [a, b]"
proof -
  have b: "x < 256" "y < 256" unfolding x_def y_def by (rule of_char_lt_256)+
  note sb = sextet_bounds[OF b b(2)]
  have i: "b64index (b64char (x div 4)) = x div 4"
    "b64index (b64char ((x mod 4) * 16 + y div 16)) = (x mod 4) * 16 + y div 16"
    "b64index (b64char ((y mod 16) * 4)) = (y mod 16) * 4"
    using sb by (simp_all only: b64index_b64char)
  have p: "b64char ((y mod 16) * 4) \<noteq> CHR ''=''"
    using sb by (simp only: b64char_not_pad not_False_eq_True)
  have c: "char_of x = a" "char_of y = b" unfolding x_def y_def by simp_all
  show ?thesis
    by (simp only: fromBase64.simps Let_def i p if_False if_True byte1[OF b(2)] byte2'[OF b(2)] c refl simp_thms)
qed

lemma fromBase64_toBase64: "fromBase64 (toBase64 bs) = bs"
proof (induction bs rule: toBase64.induct)
  case 1
  show ?case by simp
next
  case (2 a)
  show ?case by (simp only: toBase64.simps Let_def decode_last1)
next
  case (3 a b)
  show ?case by (simp only: toBase64.simps Let_def decode_last2)
next
  case (4 a b c rest)
  show ?case by (simp only: toBase64.simps Let_def append_Cons append_Nil decode_group "4")
qed

subsection \<open>Eviction\<close>

lemma fold_delete_filter:
  "fold AList.delete ks c = filter (\<lambda>kv. fst kv \<notin> set ks) c"
proof (induction ks arbitrary: c)
  case Nil
  show ?case by simp
next
  case (Cons k ks)
  have "AList.delete k c = filter (\<lambda>kv. fst kv \<noteq> k) c"
    by (auto simp: AList.delete_eq intro!: filter_cong)
  then show ?case using Cons by (auto intro!: filter_cong)
qed

lemma evictLoop_spec:
  "evictLoop cfg ks c ev = (c', ev') \<Longrightarrow>
     \<exists>n\<le>length ks.
       c' = fold AList.delete (take n ks) c \<and> ev' = ev + n \<and>
       (\<forall>m<n. stillNeedsEviction cfg (fold AList.delete (take m ks) c)) \<and>
       (n < length ks \<longrightarrow> \<not> stillNeedsEviction cfg c')"
proof (induction ks arbitrary: c ev)
  case Nil
  then show ?case by simp
next
  case (Cons k ks)
  show ?case
  proof (cases "stillNeedsEviction cfg c")
    case False
    with Cons.prems have "c' = c" "ev' = ev" by simp_all
    with False show ?thesis by (intro exI[of _ 0]) simp
  next
    case True
    with Cons.prems have "evictLoop cfg ks (AList.delete k c) (ev + 1) = (c', ev')" by simp
    from Cons.IH[OF this] obtain n where n: "n \<le> length ks"
      "c' = fold AList.delete (take n ks) (AList.delete k c)" "ev' = ev + 1 + n"
      "\<forall>m<n. stillNeedsEviction cfg (fold AList.delete (take m ks) (AList.delete k c))"
      "n < length ks \<longrightarrow> \<not> stillNeedsEviction cfg c'"
      by auto
    have "\<forall>m<Suc n. stillNeedsEviction cfg (fold AList.delete (take m (k # ks)) c)"
    proof (intro allI impI)
      fix m assume "m < Suc n"
      then show "stillNeedsEviction cfg (fold AList.delete (take m (k # ks)) c)"
        using True n(4) by (cases m) simp_all
    qed
    with n show ?thesis by (intro exI[of _ "Suc n"]) simp
  qed
qed

lemma evictLoop_total: "\<exists>c' ev'. evictLoop cfg ks c ev = (c', ev')"
  by (cases "evictLoop cfg ks c ev") simp

lemma sorted_sortedEntries: "sorted (map (\<lambda>kv. lastAccess (snd kv)) (sortedEntries c))"
proof -
  have "(\<lambda>kv::string \<times> cache_entry. lastAccess (snd kv)) = (\<lambda>(k, e). lastAccess e)"
    by (simp add: fun_eq_iff)
  then show ?thesis by (simp add: sortedEntries_def)
qed

lemma distinct_keys_sortedEntries:
  "distinct (map fst c) \<Longrightarrow> distinct (map fst (sortedEntries c))"
  by (simp add: sortedEntries_def distinct_map)

lemma take_le_drop_sorted:
  assumes "sorted (map f xs)" "v \<in> set (take n xs)" "r \<in> set (drop n xs)"
  shows "f v \<le> f r"
proof -
  have "sorted (map f (take n xs) @ map f (drop n xs))"
    using assms(1) by (metis append_take_drop_id map_append)
  then show ?thesis using assms(2,3) by (auto simp: sorted_append)
qed

lemma remaining_after_victims:
  assumes "distinct (map fst xs)" "set c = set xs"
  shows "set (filter (\<lambda>kv. fst kv \<notin> set (map fst (take n xs))) c) = set (drop n xs)"
proof -
  have split: "set xs = set (take n xs) \<union> set (drop n xs)"
    by (metis append_take_drop_id set_append)
  have "distinct (map fst (take n xs) @ map fst (drop n xs))"
    using assms(1) by (metis append_take_drop_id map_append)
  then have disj: "fst ` set (take n xs) \<inter> fst ` set (drop n xs) = {}"
    by simp
  show ?thesis
  proof (intro set_eqI iffI)
    fix r assume "r \<in> set (filter (\<lambda>kv. fst kv \<notin> set (map fst (take n xs))) c)"
    then have "r \<in> set xs" "fst r \<notin> fst ` set (take n xs)" using assms(2) by auto
    then show "r \<in> set (drop n xs)" using split by auto
  next
    fix r assume r: "r \<in> set (drop n xs)"
    then have "fst r \<notin> fst ` set (take n xs)" using disj by auto
    moreover have "r \<in> set c" using r split assms(2) by auto
    ultimately show "r \<in> set (filter (\<lambda>kv. fst kv \<notin> set (map fst (take n xs))) c)" by simp
  qed
qed

lemma evictLRU_cases:
  assumes "stillNeedsEviction cfg (httpCache s)"
  obtains c' n where
    "evictLoop cfg (map fst (sortedEntries (httpCache s))) (httpCache s) 0 = (c', n)"
    "httpCache (evictLRU cfg s) = c'"
    "evictions (cacheStats (evictLRU cfg s)) = evictions (cacheStats s) + n"
    "cacheDirty (evictLRU cfg s) = (cacheDirty s \<or> n > 0)"
proof -
  obtain c' n where l: "evictLoop cfg (map fst (sortedEntries (httpCache s))) (httpCache s) 0 = (c', n)"
    using evictLoop_total by blast
  have "httpCache (evictLRU cfg s) = c'"
    "evictions (cacheStats (evictLRU cfg s)) = evictions (cacheStats s) + n"
    "cacheDirty (evictLRU cfg s) = (cacheDirty s \<or> n > 0)"
    using assms l by (auto simp: evictLRU_def stillNeedsEviction_def Let_def)
  with l show ?thesis using that by blast
qed

lemma evictLRU_post:
  "\<not> stillNeedsEviction cfg (httpCache (evictLRU cfg s)) \<or> httpCache (evictLRU cfg s) = []"
proof (cases "stillNeedsEviction cfg (httpCache s)")
  case False
  then show ?thesis by (simp add: evictLRU_def stillNeedsEviction_def)
next
  case True
  then obtain l n where l: "evictLoop cfg (map fst (sortedEntries (httpCache s))) (httpCache s) 0 = (l, n)"
    and res: "httpCache (evictLRU cfg s) = l"
    by (rule evictLRU_cases)
  from evictLoop_spec[OF l] obtain k where k: "k \<le> length (sortedEntries (httpCache s))"
    "l = fold AList.delete (take k (map fst (sortedEntries (httpCache s)))) (httpCache s)"
    "k < length (sortedEntries (httpCache s)) \<longrightarrow> \<not> stillNeedsEviction cfg l"
    by auto
  show ?thesis
  proof (cases "k < length (sortedEntries (httpCache s))")
    case True
    then show ?thesis using k(3) res by simp
  next
    case False
    then have "take k (map fst (sortedEntries (httpCache s))) = map fst (sortedEntries (httpCache s))"
      by simp
    then have "l = filter (\<lambda>kv. fst kv \<notin> fst ` set (httpCache s)) (httpCache s)"
      using k(2) by (simp add: fold_delete_filter sortedEntries_def)
    then have "l = []" by (simp add: filter_empty_conv)
    then show ?thesis using res by simp
  qed
qed

text \<open>
  Claim C6.  When \<^verbatim>\<open>evictLRU\<close> runs with a pressure signal active (on a cache whose
  keys are distinct, as the keys of an object are), there is a number \<open>n\<close> such that
  the cache afterwards is the cache without the first \<open>n\<close> entries of the order by
  ascending \<open>lastAccess\<close>: what remains is exactly the rest of that order, every removed
  entry is at most as recent as every entry that stays, before each of the \<open>n\<close>
  removals the two signals, evaluated on the cache as it was then, still asked for
  eviction, and at the end both signals are clear or the cache is empty.  The
  \<open>evictions\<close> counter grows by \<open>n\<close> and the dirty flag is set when \<open>n > 0\<close>.
\<close>

theorem evictLRU_oldest_first:
  fixes cfg :: config and s :: state
  defines "c \<equiv> httpCache s"
    and "c' \<equiv> httpCache (evictLRU cfg s)"
    and "without \<equiv> \<lambda>m. fold AList.delete (map fst (take m (sortedEntries (httpCache s)))) (httpCache s)"
  assumes needs: "stillNeedsEviction cfg c"
    and dist: "distinct (map fst c)"
  shows "\<exists>n\<le>length c.
           c' = without n \<and>
           set c' = set (drop n (sortedEntries c)) \<and>
           length c' = length c - n \<and>
           (\<forall>v\<in>set (take n (sortedEntries c)). \<forall>r\<in>set c'. lastAccess (snd v) \<le> lastAccess (snd r)) \<and>
           (\<forall>m<n. stillNeedsEviction cfg (without m)) \<and>
           (\<not> stillNeedsEviction cfg c' \<or> c' = []) \<and>
           evictions (cacheStats (evictLRU cfg s)) = evictions (cacheStats s) + n \<and>
           cacheDirty (evictLRU cfg s) = (cacheDirty s \<or> n > 0)"
proof -
  let ?xs = "sortedEntries c"
  let ?ks = "map fst ?xs"
  from needs obtain l n where l: "evictLoop cfg ?ks c 0 = (l, n)"
    and res: "c' = l"
      "evictions (cacheStats (evictLRU cfg s)) = evictions (cacheStats s) + n"
      "cacheDirty (evictLRU cfg s) = (cacheDirty s \<or> n > 0)"
    unfolding c_def c'_def by (rule evictLRU_cases)
  from evictLoop_spec[OF l] obtain k where k: "k \<le> length ?ks"
    "l = fold AList.delete (take k ?ks) c" "n = k"
    "\<forall>m<k. stillNeedsEviction cfg (fold AList.delete (take m ?ks) c)"
    "k < length ?ks \<longrightarrow> \<not> stillNeedsEviction cfg l"
    by auto
  have len: "length ?xs = length c" by (simp add: sortedEntries_def)
  have setxs: "set c = set ?xs" by (simp add: sortedEntries_def)
  have dxs: "distinct (map fst ?xs)" using dist by (rule distinct_keys_sortedEntries)
  have w: "without m = fold AList.delete (take m ?ks) c" for m
    by (simp add: without_def c_def take_map)
  have cw: "c' = without n" using res(1) k(2,3) w by simp
  have filt: "c' = filter (\<lambda>kv. fst kv \<notin> set (map fst (take n ?xs))) c"
    using res(1) k(2,3) by (simp add: fold_delete_filter take_map)
  have rem: "set c' = set (drop n ?xs)"
    unfolding filt using dxs setxs by (rule remaining_after_victims)
  have dc': "distinct c'" using dist unfolding filt by (simp add: distinct_map)
  have ddrop: "distinct (drop n ?xs)" using dxs by (simp add: distinct_map)
  have "length c' = length (drop n ?xs)"
    using rem dc' ddrop by (metis distinct_card)
  then have lenc': "length c' = length c - n" using len by simp
  have order: "\<forall>v\<in>set (take n ?xs). \<forall>r\<in>set c'. lastAccess (snd v) \<le> lastAccess (snd r)"
    using take_le_drop_sorted[OF sorted_sortedEntries] rem by blast
  have stop: "\<not> stillNeedsEviction cfg c' \<or> c' = []"
  proof (cases "k < length ?ks")
    case True
    then show ?thesis using k(5) res(1) by simp
  next
    case False
    then have "n = length c" using k(1,3) len by simp
    then show ?thesis using lenc' by simp
  qed
  have "n \<le> length c" using k(1,3) len by simp
  moreover have "\<forall>m<n. stillNeedsEviction cfg (without m)" using k(3,4) w by simp
  ultimately show ?thesis using cw rem lenc' order stop res(2,3) by blast
qed

text \<open>
  The theorem at entries with access times 30, 10, 20 and a ceiling of three entries:
  exactly one entry is evicted, the one with time 10.
\<close>

theorem evictLRU_oldest_first_witness:
  "stillNeedsEviction lruConfig (httpCache lruState) \<and>
   distinct (map fst (httpCache lruState)) \<and>
   httpCache (evictLRU lruConfig lruState) = [(''c'', entryAt 30), (''b'', entryAt 20)] \<and>
   (\<exists>n\<le>length (httpCache lruState).
      set (httpCache (evictLRU lruConfig lruState)) = set (drop n (sortedEntries (httpCache lruState))) \<and>
      length (httpCache (evictLRU lruConfig lruState)) = length (httpCache lruState) - n \<and>
      (\<forall>v\<in>set (take n (sortedEntries (httpCache lruState))).
         \<forall>r\<in>set (httpCache (evictLRU lruConfig lruState)). lastAccess (snd v) \<le> lastAccess (snd r)) \<and>
      (\<not> stillNeedsEviction lruConfig (httpCache (evictLRU lruConfig lruState)) \<or>
       httpCache (evictLRU lruConfig lruState) = []) \<and>
      evictions (cacheStats (evictLRU lruConfig lruState)) = evictions (cacheStats lruState) + n)"
proof -
  have h1: "stillNeedsEviction lruConfig (httpCache lruState)" by code_simp
  have h2: "distinct (map fst (httpCache lruState))" by code_simp
  have ex: "httpCache (evictLRU lruConfig lruState) = [(''c'', entryAt 30), (''b'', entryAt 20)]"
    by code_simp
  from evictLRU_oldest_first[OF h1 h2] obtain n where n: "n \<le> length (httpCache lruState)"
    "set (httpCache (evictLRU lruConfig lruState)) = set (drop n (sortedEntries (httpCache lruState)))"
    "length (httpCache (evictLRU lruConfig lruState)) = length (httpCache lruState) - n"
    "\<forall>v\<in>set (take n (sortedEntries (httpCache lruState))).
       \<forall>r\<in>set (httpCache (evictLRU lruConfig lruState)). lastAccess (snd v) \<le> lastAccess (snd r)"
    "\<not> stillNeedsEviction lruConfig (httpCache (evictLRU lruConfig lruState)) \<or>
       httpCache (evictLRU lruConfig lruState) = []"
    "evictions (cacheStats (evictLRU lruConfig lruState)) = evictions (cacheStats lruState) + n"
    by blast
  then show ?thesis using h1 h2 ex by blast
qed

subsection \<open>Blocked requests\<close>

text \<open>
  Claim C5, as the code has it.  A request whose resource type is one of image,
  stylesheet, font, media, or whose URL contains a blocked-domain substring while
  domain blocking is enabled, is aborted; no fetch is issued, and the cache, its
  statistics, the dirty flag, the pending requests and the deduplication statistics are
  as before.  The \<open>blocked\<close> counter grows by one for a request blocked by its domain
  and stays as it is for a request blocked by its resource type.
\<close>

theorem blocked_request_aborted:
  fixes cfg tgt rid req now s
  defines "s' \<equiv> handler cfg tgt rid req now s"
  assumes "resourceType req \<in> set blockedResourceTypes \<or>
           (DOMAIN_BLOCKING_ENABLED cfg \<and> isBlockedDomain (url req))"
  shows "routes s' rid = Some Aborted \<and>
         upstream s' = upstream s \<and>
         httpCache s' = httpCache s \<and>
         cacheStats s' = cacheStats s \<and>
         cacheDirty s' = cacheDirty s \<and>
         pendingRequests s' = pendingRequests s \<and>
         promises s' = promises s \<and>
         dedupStats s' = dedupStats s \<and>
         disk s' = disk s \<and>
         blocked (domainBlockStats s') =
           blocked (domainBlockStats s) +
           (if resourceType req \<in> set blockedResourceTypes then 0 else 1)"
  using assms(2) unfolding s'_def by (auto simp: handler_def setRoute_def)

theorem blocked_request_aborted_witness:
  "(resourceType trackerRequest \<in> set blockedResourceTypes \<or>
    (DOMAIN_BLOCKING_ENABLED defaultConfig \<and> isBlockedDomain (url trackerRequest))) \<and>
   routes (handler defaultConfig Amazon 1 trackerRequest 5 hitState) 1 = Some Aborted \<and>
   upstream (handler defaultConfig Amazon 1 trackerRequest 5 hitState) = upstream hitState \<and>
   httpCache (handler defaultConfig Amazon 1 trackerRequest 5 hitState) = httpCache hitState \<and>
   blocked (domainBlockStats (handler defaultConfig Amazon 1 trackerRequest 5 hitState)) =
     blocked (domainBlockStats hitState) + 1"
proof -
  have h: "resourceType trackerRequest \<in> set blockedResourceTypes \<or>
    (DOMAIN_BLOCKING_ENABLED defaultConfig \<and> isBlockedDomain (url trackerRequest))"
    by code_simp
  have t: "resourceType trackerRequest \<notin> set blockedResourceTypes" by code_simp
  show ?thesis
    using blocked_request_aborted[where tgt = Amazon and rid = 1 and now = 5 and s = hitState, OF h] h t
    by simp
qed

text \<open>
  The claim as stated fails at a request blocked by its resource type: it is aborted and
  \<open>blocked\<close> is not incremented.
\<close>

theorem blocked_counter_counterexample:
  "resourceType loginImageRequest \<in> set blockedResourceTypes \<and>
   routes (handler defaultConfig Amazon 1 loginImageRequest 5 (initial None)) 1 = Some Aborted \<and>
   blocked (domainBlockStats (handler defaultConfig Amazon 1 loginImageRequest 5 (initial None))) \<noteq>
     blocked (domainBlockStats (initial None)) + 1"
  by code_simp

subsection \<open>Requests excluded from the cache\<close>

text \<open>
  Claim C8, as the code has it.  A request whose URL matches the authentication pattern
  or the \<^verbatim>\<open>isDynamic\<close> pattern of the spec that handles it is never answered from the
  cache, whatever the cache holds: the cache and its statistics are untouched, no
  \<^verbatim>\<open>route.fetch()\<close> is issued by the handler, and the request is passed through with
  \<^verbatim>\<open>route.continue()\<close>, unless the block rules (resource type, blocked domain) abort it
  first.
\<close>

theorem sensitive_request_bypasses_cache:
  fixes cfg tgt rid req now s
  defines "s' \<equiv> handler cfg tgt rid req now s"
  assumes "isAuthLike (url req) \<or> isDynamic tgt (url req)"
  shows "httpCache s' = httpCache s \<and>
         cacheStats s' = cacheStats s \<and>
         dedupStats s' = dedupStats s \<and>
         pendingRequests s' = pendingRequests s \<and>
         upstream s' = upstream s \<and>
         routes s' rid =
           Some (if resourceType req \<in> set blockedResourceTypes \<or>
                    (DOMAIN_BLOCKING_ENABLED cfg \<and> isBlockedDomain (url req))
                 then Aborted else Continued)"
  using assms(2) unfolding s'_def by (auto simp: handler_def setRoute_def cacheable_def)

theorem sensitive_request_bypasses_cache_witness:
  "(isAuthLike (url loginRequest) \<or> isDynamic Amazon (url loginRequest)) \<and>
   map_of (httpCache (withCache [(url loginRequest, entryAt 1)])) (url loginRequest) = Some (entryAt 1) \<and>
   httpCache (handler defaultConfig Amazon 1 loginRequest 5 (withCache [(url loginRequest, entryAt 1)])) =
     httpCache (withCache [(url loginRequest, entryAt 1)]) \<and>
   routes (handler defaultConfig Amazon 1 loginRequest 5 (withCache [(url loginRequest, entryAt 1)])) 1 =
     Some Continued"
proof -
  have h: "isAuthLike (url loginRequest) \<or> isDynamic Amazon (url loginRequest)" by code_simp
  have nb: "\<not> (resourceType loginRequest \<in> set blockedResourceTypes \<or>
    (DOMAIN_BLOCKING_ENABLED defaultConfig \<and> isBlockedDomain (url loginRequest)))" by code_simp
  have m: "map_of (httpCache (withCache [(url loginRequest, entryAt 1)])) (url loginRequest) = Some (entryAt 1)"
    by code_simp
  show ?thesis
    using sensitive_request_bypasses_cache[where cfg = defaultConfig and rid = 1 and now = 5
        and s = "withCache [(url loginRequest, entryAt 1)]", OF h] h nb m
    by simp
qed

text \<open>
  The claim as stated fails at an image request under \<^verbatim>\<open>/login\<close>: with an identical
  response stored, the request is aborted and no pass-through call occurs.  It also
  fails for the listed volatility words outside the Amazon spec: the Wikipedia
  spec has its own \<^verbatim>\<open>isDynamic\<close> expression, which does not contain \<^verbatim>\<open>search\<close>, and a stored
  search URL is served from the cache there.
\<close>

theorem sensitive_request_counterexample:
  "isAuthLike (url loginImageRequest) \<and>
   map_of (httpCache (withCache [(url loginImageRequest, entryAt 1)])) (url loginImageRequest) =
     Some (entryAt 1) \<and>
   routes (handler defaultConfig Amazon 1 loginImageRequest 5
             (withCache [(url loginImageRequest, entryAt 1)])) 1 \<noteq> Some Continued \<and>
   isDynamic Amazon (url wikipediaSearchRequest) \<and>
   routes (handler defaultConfig Wikipedia 1 wikipediaSearchRequest 5
             (withCache [(url wikipediaSearchRequest, entryAt 1)])) 1 =
     Some (Fulfilled 200 [(''content-type'', ''text/html'')] ''ok'')"
  by code_simp

subsection \<open>Frame of a cache hit\<close>

text \<open>
  Claim C10.  When the handler answers a request from the cache, the request is
  fulfilled from the stored entry, the keys of the cache and their order are as before,
  the hit entry differs from the stored one in \<open>lastAccess\<close> only (set to the clock
  reading), every other entry is unchanged, of the statistics only \<open>hits\<close> changes, the
  dirty flag, the pending requests, the log of fetches and the snapshot file are
  unchanged; and if the cache was not dirty before the hit, \<^verbatim>\<open>writeCacheToDisk\<close> after it
  writes nothing.
\<close>

theorem cache_hit_frame:
  fixes cfg tgt rid req now s cached
  defines "s' \<equiv> handler cfg tgt rid req now s"
  assumes nb: "resourceType req \<notin> set blockedResourceTypes"
      "\<not> (DOMAIN_BLOCKING_ENABLED cfg \<and> isBlockedDomain (url req))"
    and c: "cacheable cfg tgt req"
    and hit: "map_of (httpCache s) (url req) = Some cached"
  shows "routes s' rid = Some (Fulfilled (status cached) (headers cached) (fromBase64 (body cached))) \<and>
         map fst (httpCache s') = map fst (httpCache s) \<and>
         map_of (httpCache s') (url req) = Some (cached\<lparr>lastAccess := now\<rparr>) \<and>
         (\<forall>k. k \<noteq> url req \<longrightarrow> map_of (httpCache s') k = map_of (httpCache s) k) \<and>
         cacheStats s' = (cacheStats s)\<lparr>hits := hits (cacheStats s) + 1\<rparr> \<and>
         dedupStats s' = dedupStats s \<and>
         domainBlockStats s' = domainBlockStats s \<and>
         cacheDirty s' = cacheDirty s \<and>
         pendingRequests s' = pendingRequests s \<and>
         upstream s' = upstream s \<and>
         disk s' = disk s \<and>
         (\<not> cacheDirty s \<longrightarrow> writeCacheToDisk cfg ok s' = s')"
proof -
  have key: "url req \<in> fst ` set (httpCache s)"
    using hit by (metis domI dom_map_of_conv_image_fst)
  have s': "s' = setRoute rid (Fulfilled (status cached) (headers cached) (fromBase64 (body cached)))
               (s\<lparr>cacheStats := (cacheStats s)\<lparr>hits := hits (cacheStats s) + 1\<rparr>,
                  httpCache := AList.update (url req) (cached\<lparr>lastAccess := now\<rparr>) (httpCache s)\<rparr>)"
    unfolding s'_def using nb c hit by (auto simp: handler_def)
  have keys: "map fst (httpCache s') = map fst (httpCache s)"
    using key by (simp add: s' setRoute_def update_keys)
  show ?thesis
    using keys by (simp add: s' setRoute_def update_conv' writeCacheToDisk_def)
qed

theorem cache_hit_frame_witness:
  "resourceType pageRequest \<notin> set blockedResourceTypes \<and>
   \<not> (DOMAIN_BLOCKING_ENABLED defaultConfig \<and> isBlockedDomain (url pageRequest)) \<and>
   cacheable defaultConfig Amazon pageRequest \<and>
   map_of (httpCache hitState) (url pageRequest) = Some (entryAt 1) \<and>
   \<not> cacheDirty hitState \<and>
   map_of (httpCache (handler defaultConfig Amazon 1 pageRequest 5 hitState)) (url pageRequest) =
     Some ((entryAt 1)\<lparr>lastAccess := 5\<rparr>) \<and>
   map_of (httpCache (handler defaultConfig Amazon 1 pageRequest 5 hitState)) ''b'' = Some (entryAt 2) \<and>
   cacheDirty (handler defaultConfig Amazon 1 pageRequest 5 hitState) = cacheDirty hitState \<and>
   disk (writeCacheToDisk defaultConfig True (handler defaultConfig Amazon 1 pageRequest 5 hitState)) =
     disk hitState"
proof -
  have h1: "resourceType pageRequest \<notin> set blockedResourceTypes" by code_simp
  have h2: "\<not> (DOMAIN_BLOCKING_ENABLED defaultConfig \<and> isBlockedDomain (url pageRequest))"
    by code_simp
  have h3: "cacheable defaultConfig Amazon pageRequest" by code_simp
  have h4: "map_of (httpCache hitState) (url pageRequest) = Some (entryAt 1)" by code_simp
  have h5: "\<not> cacheDirty hitState" by code_simp
  have h6: "''b'' \<noteq> url pageRequest" by code_simp
  have h7: "map_of (httpCache hitState) ''b'' = Some (entryAt 2)" by code_simp
  show ?thesis
    using cache_hit_frame[where rid = 1 and now = 5 and ok = True, OF h1 h2 h3 h4] h1 h2 h3 h4 h5 h6 h7
    by simp
qed

subsection \<open>The entry ceiling after a put\<close>

lemma length_update_le: "length (AList.update k v al) \<le> Suc (length al)"
  by (induction al) auto

lemma length_put_le:
  assumes "1 \<le> MAX_CACHE_ENTRIES cfg"
  shows "int (length (httpCache (put cfg key st hs b now s))) \<le> MAX_CACHE_ENTRIES cfg"
proof -
  let ?c = "httpCache (evictLRU cfg s)"
  have len: "length (httpCache (put cfg key st hs b now s)) \<le> Suc (length ?c)"
    by (simp add: put_def Let_def length_update_le)
  from evictLRU_post[of cfg s] show ?thesis
  proof
    assume "\<not> stillNeedsEviction cfg ?c"
    then have "int (length ?c) < MAX_CACHE_ENTRIES cfg"
      by (simp add: stillNeedsEviction_def needsEvictionByCount_def)
    then show ?thesis using len by linarith
  next
    assume "?c = []"
    then show ?thesis using len assms by simp
  qed
qed

text \<open>
  Claim C7, as the code has it.  \<^verbatim>\<open>evictLRU\<close> runs before the insertion, so it leaves
  room for the new entry only when the ceiling allows an entry at all: with
  \<open>MAX_CACHE_ENTRIES \<ge> 1\<close>, after every put of any non-empty sequence of puts, from any
  state, the number of entries is at most \<open>MAX_CACHE_ENTRIES\<close>; hence the cache is never
  above both ceilings at once (the size ceiling alone can be exceeded by the entry just
  inserted).
\<close>

theorem put_keeps_entry_ceiling:
  fixes cfg :: config and s :: state
    and puts :: "(string \<times> int \<times> headers \<times> string \<times> int) list"
  defines "s' \<equiv> foldl (\<lambda>s (key, st, hs, bodyBuffer, now). put cfg key st hs bodyBuffer now s) s puts"
  assumes "1 \<le> MAX_CACHE_ENTRIES cfg" and "puts \<noteq> []"
  shows "int (length (httpCache s')) \<le> MAX_CACHE_ENTRIES cfg \<and>
         \<not> (int (length (httpCache s')) > MAX_CACHE_ENTRIES cfg \<and>
            getCacheSizeMB (httpCache s') > MAX_CACHE_SIZE_MB cfg)"
proof -
  from assms(3) obtain ps p where puts: "puts = ps @ [p]"
    by (metis rev_exhaust)
  obtain key st hs b now where p: "p = (key, st, hs, b, now)"
    by (cases p) auto
  have "s' = put cfg key st hs b now
               (foldl (\<lambda>s (key, st, hs, bodyBuffer, now). put cfg key st hs bodyBuffer now s) s ps)"
    unfolding s'_def puts p by simp
  then have "int (length (httpCache s')) \<le> MAX_CACHE_ENTRIES cfg"
    using length_put_le[OF assms(2)] by simp
  then show ?thesis by simp
qed

theorem put_keeps_entry_ceiling_witness:
  "1 \<le> MAX_CACHE_ENTRIES lruConfig \<and>
   [(''d'', 200, [], ''ok'', 40), (''e'', 200, [], ''ok'', 50)] \<noteq> ([] :: (string \<times> int \<times> headers \<times> string \<times> int) list) \<and>
   int (length (httpCache (foldl (\<lambda>s (key, st, hs, bodyBuffer, now). put lruConfig key st hs bodyBuffer now s)
        lruState [(''d'', 200, [], ''ok'', 40), (''e'', 200, [], ''ok'', 50)]))) \<le> MAX_CACHE_ENTRIES lruConfig"
proof -
  have h1: "1 \<le> MAX_CACHE_ENTRIES lruConfig" by code_simp
  have h2: "[(''d'', 200, [], ''ok'', 40), (''e'', 200, [], ''ok'', 50)] \<noteq> ([] :: (string \<times> int \<times> headers \<times> string \<times> int) list)"
    by simp
  show ?thesis
    using put_keeps_entry_ceiling[OF h1 h2, of lruState] h1 h2 by blast
qed

text \<open>
  The claim as stated fails when the configured ceilings are zero: after one put the
  cache holds one entry, more than \<open>MAX_CACHE_ENTRIES\<close>, and its serialization is
  larger than \<open>MAX_CACHE_SIZE_MB\<close>.
\<close>

theorem put_ceiling_counterexample:
  "int (length (httpCache (put (defaultConfig\<lparr>MAX_CACHE_ENTRIES := 0, MAX_CACHE_SIZE_MB := 0\<rparr>)
       (url pageRequest) 200 [] ''ok'' 1 (initial None)))) >
     MAX_CACHE_ENTRIES (defaultConfig\<lparr>MAX_CACHE_ENTRIES := 0, MAX_CACHE_SIZE_MB := 0\<rparr>) \<and>
   getCacheSizeMB (httpCache (put (defaultConfig\<lparr>MAX_CACHE_ENTRIES := 0, MAX_CACHE_SIZE_MB := 0\<rparr>)
       (url pageRequest) 200 [] ''ok'' 1 (initial None))) >
     MAX_CACHE_SIZE_MB (defaultConfig\<lparr>MAX_CACHE_ENTRIES := 0, MAX_CACHE_SIZE_MB := 0\<rparr>)"
  by code_simp

subsection \<open>Flushing and loading the snapshot\<close>

lemma update_new_key: "k \<notin> fst ` set al \<Longrightarrow> AList.update k v al = al @ [(k, v)]"
  by (induction al) auto

lemma foldl_loadEntry:
  assumes "distinct (map fst xs)" "fst ` set acc \<inter> fst ` set xs = {}"
    "\<forall>e\<in>snd ` set xs. lastAccess e \<noteq> 0"
  shows "foldl (loadEntry now) acc xs = acc @ xs"
  using assms
proof (induction xs arbitrary: acc)
  case Nil
  show ?case by simp
next
  case (Cons x xs)
  obtain k v where x: "x = (k, v)" by (cases x)
  have k: "k \<notin> fst ` set acc" using Cons.prems(2) x by auto
  have v: "lastAccess v \<noteq> 0" using Cons.prems(3) x by auto
  have step: "loadEntry now acc x = acc @ [x]"
    using k v by (simp add: loadEntry_def x update_new_key)
  have "foldl (loadEntry now) (acc @ [x]) xs = (acc @ [x]) @ xs"
  proof (rule Cons.IH)
    show "distinct (map fst xs)" using Cons.prems(1) by simp
    show "fst ` set (acc @ [x]) \<inter> fst ` set xs = {}"
      using Cons.prems(1,2) by auto
    show "\<forall>e\<in>snd ` set xs. lastAccess e \<noteq> 0" using Cons.prems(3) by auto
  qed
  then show ?case using step by simp
qed

lemma evictLRU_noop: "\<not> stillNeedsEviction cfg (httpCache s) \<Longrightarrow> evictLRU cfg s = s"
  by (simp add: evictLRU_def stillNeedsEviction_def)

text \<open>
  Claim C9, as the code has it.  With the cache enabled and not cleared on start, a
  dirty cache that is below both ceilings (neither pressure signal active) and whose
  entries carry non-zero access times is written by \<^verbatim>\<open>writeCacheToDisk\<close> and read back
  by the load block as the same entries in the same order, with equal status, headers,
  body and access time.
\<close>

theorem flush_then_load:
  fixes cfg :: config and s :: state and now :: int
  assumes "CACHE_ENABLED cfg" and "\<not> CACHE_CLEAR cfg" and "cacheDirty s"
    and "distinct (map fst (httpCache s))"
    and "\<forall>e\<in>snd ` set (httpCache s). lastAccess e \<noteq> 0"
    and "\<not> stillNeedsEviction cfg (httpCache s)"
  shows "disk (writeCacheToDisk cfg True s) = Some (Json (httpCache s)) \<and>
         httpCache (loadCache cfg now (disk (writeCacheToDisk cfg True s))) = httpCache s"
proof -
  have d: "disk (writeCacheToDisk cfg True s) = Some (Json (httpCache s))"
    using assms(1,3) by (simp add: writeCacheToDisk_def)
  have f: "foldl (loadEntry now) [] (httpCache s) = httpCache s"
    using foldl_loadEntry[of "httpCache s" "[]" now] assms(4,5) by simp
  have "loadCache cfg now (Some (Json (httpCache s))) =
          evictLRU cfg ((initial (Some (Json (httpCache s))))\<lparr>httpCache := httpCache s\<rparr>)"
    using assms(1,2) f by (simp add: loadCache_def)
  also have "\<dots> = (initial (Some (Json (httpCache s))))\<lparr>httpCache := httpCache s\<rparr>"
    using assms(6) by (simp add: evictLRU_noop)
  finally show ?thesis using d by simp
qed

theorem flush_then_load_witness:
  "CACHE_ENABLED lruConfig \<and> \<not> CACHE_CLEAR lruConfig \<and> cacheDirty fullState \<and>
   distinct (map fst (httpCache fullState)) \<and>
   list_all (\<lambda>e. lastAccess e \<noteq> 0) (map snd (httpCache fullState)) \<and>
   \<not> stillNeedsEviction lruConfig (httpCache fullState) \<and>
   httpCache (loadCache lruConfig 30 (disk (writeCacheToDisk lruConfig True fullState))) =
     httpCache fullState"
proof -
  have h: "CACHE_ENABLED lruConfig" "\<not> CACHE_CLEAR lruConfig" "cacheDirty fullState"
    "distinct (map fst (httpCache fullState))"
    "\<forall>e\<in>snd ` set (httpCache fullState). lastAccess e \<noteq> 0"
    "\<not> stillNeedsEviction lruConfig (httpCache fullState)"
    by code_simp+
  have l: "list_all (\<lambda>e. lastAccess e \<noteq> 0) (map snd (httpCache fullState))"
    using h(5) by (simp add: list_all_iff)
  have "httpCache (loadCache lruConfig 30 (disk (writeCacheToDisk lruConfig True fullState))) =
     httpCache fullState"
    using flush_then_load[OF h, of 30] by (rule conjunct2)
  then show ?thesis using h(1,2,3,4,6) l by blast
qed

text \<open>
  The claim as stated fails for a cache that holds exactly \<open>MAX_CACHE_ENTRIES\<close> entries
  (the state after two puts under a ceiling of two): the load block ends with
  \<^verbatim>\<open>evictLRU()\<close>, whose count signal is \<open>\<ge>\<close>, and one of the two entries is evicted.
\<close>

theorem flush_then_load_counterexample:
  "length (httpCache fullState) = 2 \<and>
   cacheDirty fullState \<and>
   length (httpCache (loadCache (defaultConfig\<lparr>MAX_CACHE_ENTRIES := 2\<rparr>) 30
             (disk (writeCacheToDisk (defaultConfig\<lparr>MAX_CACHE_ENTRIES := 2\<rparr>) True fullState)))) = 1"
  by code_simp

subsection \<open>What the handler and the settling of a fetch leave unchanged\<close>

lemma evictLRU_frame:
  "routes (evictLRU cfg s) = routes s"
  "upstream (evictLRU cfg s) = upstream s"
  "pendingRequests (evictLRU cfg s) = pendingRequests s"
  "promises (evictLRU cfg s) = promises s"
  "dedupStats (evictLRU cfg s) = dedupStats s"
  "domainBlockStats (evictLRU cfg s) = domainBlockStats s"
  "disk (evictLRU cfg s) = disk s"
  "hits (cacheStats (evictLRU cfg s)) = hits (cacheStats s)"
  "misses (cacheStats (evictLRU cfg s)) = misses (cacheStats s)"
  "writes (cacheStats (evictLRU cfg s)) = writes (cacheStats s)"
  by (simp_all add: evictLRU_def Let_def split: prod.split)

lemma put_frame:
  "routes (put cfg key st hs b now s) = routes s"
  "upstream (put cfg key st hs b now s) = upstream s"
  "pendingRequests (put cfg key st hs b now s) = pendingRequests s"
  "promises (put cfg key st hs b now s) = promises s"
  "dedupStats (put cfg key st hs b now s) = dedupStats s"
  "domainBlockStats (put cfg key st hs b now s) = domainBlockStats s"
  "disk (put cfg key st hs b now s) = disk s"
  "hits (cacheStats (put cfg key st hs b now s)) = hits (cacheStats s)"
  "misses (cacheStats (put cfg key st hs b now s)) = misses (cacheStats s)"
  by (simp_all add: put_def Let_def evictLRU_frame)


lemma requestPromise_frame:
  "routes (fst (requestPromise cfg key outcome now s)) = routes s"
  "upstream (fst (requestPromise cfg key outcome now s)) = upstream s"
  "promises (fst (requestPromise cfg key outcome now s)) = promises s"
  "dedupStats (fst (requestPromise cfg key outcome now s)) = dedupStats s"
  "domainBlockStats (fst (requestPromise cfg key outcome now s)) = domainBlockStats s"
  "disk (fst (requestPromise cfg key outcome now s)) = disk s"
  "hits (cacheStats (fst (requestPromise cfg key outcome now s))) = hits (cacheStats s)"
  "misses (cacheStats (fst (requestPromise cfg key outcome now s))) = misses (cacheStats s)"
  by (simp_all add: requestPromise_def Let_def put_frame split: fetch_outcome.split)

lemma requestPromise_pending:
  "pendingRequests (fst (requestPromise cfg key outcome now s)) =
     (if outcome = FetchRejected then pendingRequests s else (pendingRequests s)(key := None))"
  by (simp add: requestPromise_def Let_def put_frame split: fetch_outcome.split)

lemma requestPromise_settled:
  "snd (requestPromise cfg key outcome now s) =
     (case outcome of FetchRejected \<Rightarrow> Rejected | FetchEmpty \<Rightarrow> Resolved None
      | FetchResponse st hs b \<Rightarrow> Resolved (Some \<lparr>status = st, headers = hs, body = b\<rparr>))"
  by (simp add: requestPromise_def Let_def split: fetch_outcome.split)

lemma fetchSettles_owner:
  assumes "routes s rid = Some (AwaitingFetch key)"
  shows "fetchSettles cfg rid outcome now s =
     (fst (requestPromise cfg key outcome now s))
       \<lparr>promises := (promises s)(rid \<mapsto> snd (requestPromise cfg key outcome now s)),
        routes := (\<lambda>r. if r = rid then Some (ownerResumes key (snd (requestPromise cfg key outcome now s)))
                       else if routes s r = Some (AwaitingPending rid)
                       then Some (waiterResumes rid (snd (requestPromise cfg key outcome now s)))
                       else routes s r)\<rparr>"
proof -
  obtain s1 ps where rp: "requestPromise cfg key outcome now s = (s1, ps)"
    by (cases "requestPromise cfg key outcome now s")
  have eq: "routes s1 = routes s" "promises s1 = promises s"
    using requestPromise_frame(1,3)[of cfg key outcome now s] rp by simp_all
  have "fetchSettles cfg rid outcome now s =
      s1\<lparr>promises := (promises s1)(rid \<mapsto> ps),
         routes := (\<lambda>r. if r = rid then Some (ownerResumes key ps)
                       else if routes s1 r = Some (AwaitingPending rid)
                       then Some (waiterResumes rid ps)
                       else routes s1 r)\<rparr>"
    using assms rp by (simp add: fetchSettles_def)
  then show ?thesis by (simp only: eq rp fst_conv snd_conv)
qed

lemma fetchSettles_other:
  assumes "\<forall>key. routes s rid \<noteq> Some (AwaitingFetch key)"
  shows "fetchSettles cfg rid outcome now s = s"
  using assms by (auto simp: fetchSettles_def split: option.split route_status.split)

lemma handler_owner:
  assumes "resourceType req \<notin> set blockedResourceTypes"
    "\<not> (DOMAIN_BLOCKING_ENABLED cfg \<and> isBlockedDomain (url req))"
    "cacheable cfg tgt req"
    "map_of (httpCache s) (url req) = None"
    "DEDUP_ENABLED cfg \<longrightarrow> pendingRequests s (url req) = None"
  shows "handler cfg tgt rid req now s =
     s\<lparr>cacheStats := (cacheStats s)\<lparr>misses := misses (cacheStats s) + 1\<rparr>,
       dedupStats := (dedupStats s)\<lparr>unique := unique (dedupStats s) + 1\<rparr>,
       upstream := upstream s @ [(rid, url req)],
       promises := (promises s)(rid \<mapsto> Pending),
       pendingRequests := (pendingRequests s)(url req \<mapsto> rid),
       routes := (routes s)(rid \<mapsto> AwaitingFetch (url req))\<rparr>"
  using assms by (auto simp: handler_def Let_def)

lemma handler_waiter:
  assumes "resourceType req \<notin> set blockedResourceTypes"
    "\<not> (DOMAIN_BLOCKING_ENABLED cfg \<and> isBlockedDomain (url req))"
    "cacheable cfg tgt req"
    "map_of (httpCache s) (url req) = None"
    "DEDUP_ENABLED cfg" "pendingRequests s (url req) = Some p"
  shows "handler cfg tgt rid req now s =
     s\<lparr>dedupStats := (dedupStats s)\<lparr>duplicates := duplicates (dedupStats s) + 1\<rparr>,
       routes := (routes s)(rid \<mapsto> waiterResumes p (promiseState s p))\<rparr>"
  using assms by (auto simp: handler_def Let_def setRoute_def)


lemma waiters_join:
  assumes nb: "resourceType req \<notin> set blockedResourceTypes"
      "\<not> (DOMAIN_BLOCKING_ENABLED cfg \<and> isBlockedDomain (url req))"
    and c: "cacheable cfg tgt req" and d: "DEDUP_ENABLED cfg"
  shows "map_of (httpCache s) (url req) = None \<Longrightarrow>
         pendingRequests s (url req) = Some p \<Longrightarrow>
         promises s p = Some Pending \<Longrightarrow>
         distinct (map fst rs) \<Longrightarrow>
         \<forall>r\<in>fst ` set rs. routes s r = None \<Longrightarrow>
         run cfg tgt s (map (\<lambda>(r, t). Intercept r req t) rs) =
           s\<lparr>dedupStats := (dedupStats s)\<lparr>duplicates := duplicates (dedupStats s) + length rs\<rparr>,
             routes := (\<lambda>r. if r \<in> fst ` set rs then Some (AwaitingPending p) else routes s r)\<rparr>"
proof (induction rs arbitrary: s)
  case Nil
  show ?case by (simp add: run_def)
next
  case (Cons x rs)
  obtain r0 t0 where x: "x = (r0, t0)" by (cases x)
  let ?s1 = "s\<lparr>dedupStats := (dedupStats s)\<lparr>duplicates := duplicates (dedupStats s) + 1\<rparr>,
               routes := (routes s)(r0 \<mapsto> AwaitingPending p)\<rparr>"
  have fresh: "routes s r0 = None" using Cons.prems(5) x by simp
  have ps: "promiseState s p = Pending" using Cons.prems(3) by (simp add: promiseState_def)
  have s1: "step cfg tgt s (Intercept r0 req t0) = ?s1"
    using fresh handler_waiter[OF nb c Cons.prems(1) d Cons.prems(2), of r0 t0] ps by simp
  have r0: "r0 \<notin> fst ` set rs" using Cons.prems(4) x by (simp add: image_iff)
  have ih: "run cfg tgt ?s1 (map (\<lambda>(r, t). Intercept r req t) rs) =
      ?s1\<lparr>dedupStats := (dedupStats ?s1)\<lparr>duplicates := duplicates (dedupStats ?s1) + length rs\<rparr>,
          routes := (\<lambda>r. if r \<in> fst ` set rs then Some (AwaitingPending p) else routes ?s1 r)\<rparr>"
  proof (rule Cons.IH)
    show "map_of (httpCache ?s1) (url req) = None" using Cons.prems(1) by simp
    show "pendingRequests ?s1 (url req) = Some p" using Cons.prems(2) by simp
    show "promises ?s1 p = Some Pending" using Cons.prems(3) by simp
    show "distinct (map fst rs)" using Cons.prems(4) by simp
    show "\<forall>r\<in>fst ` set rs. routes ?s1 r = None" using Cons.prems(5) r0 by auto
  qed
  have f: "(\<lambda>r. if r \<in> fst ` set rs then Some (AwaitingPending p) else routes ?s1 r) =
           (\<lambda>r. if r \<in> fst ` set (x # rs) then Some (AwaitingPending p) else routes s r)"
    by (auto simp: fun_eq_iff x)
  have "run cfg tgt s (map (\<lambda>(r, t). Intercept r req t) (x # rs)) =
        run cfg tgt ?s1 (map (\<lambda>(r, t). Intercept r req t) rs)"
    using s1 by (simp add: run_def x)
  also note ih
  finally show ?case unfolding f by simp
qed

lemma waiterResumes_not_owner: "waiterResumes p ps \<noteq> AwaitingFetch k"
  by (cases "(p, ps)" rule: waiterResumes.cases) simp_all

lemma ownerResumes_settled: "ps \<noteq> Pending \<Longrightarrow> ownerResumes key ps \<noteq> AwaitingFetch k"
  by (cases "(key, ps)" rule: ownerResumes.cases) simp_all

lemma requestPromise_not_pending: "snd (requestPromise cfg key outcome now s) \<noteq> Pending"
  by (simp add: requestPromise_settled split: fetch_outcome.split)

lemma handler_owners_registered:
  assumes d: "DEDUP_ENABLED cfg"
    and inv: "\<forall>r k. routes s r = Some (AwaitingFetch k) \<longrightarrow> pendingRequests s k = Some r"
  shows "\<forall>r k. routes (handler cfg tgt rid req now s) r = Some (AwaitingFetch k) \<longrightarrow>
           pendingRequests (handler cfg tgt rid req now s) k = Some r"
proof (intro allI impI)
  fix r k
  assume a: "routes (handler cfg tgt rid req now s) r = Some (AwaitingFetch k)"
  let ?owner = "resourceType req \<notin> set blockedResourceTypes \<and>
      \<not> (DOMAIN_BLOCKING_ENABLED cfg \<and> isBlockedDomain (url req)) \<and> cacheable cfg tgt req \<and>
      map_of (httpCache s) (url req) = None \<and> pendingRequests s (url req) = None"
  show "pendingRequests (handler cfg tgt rid req now s) k = Some r"
  proof (cases ?owner)
    case True
    then have h: "handler cfg tgt rid req now s =
       s\<lparr>cacheStats := (cacheStats s)\<lparr>misses := misses (cacheStats s) + 1\<rparr>,
         dedupStats := (dedupStats s)\<lparr>unique := unique (dedupStats s) + 1\<rparr>,
         upstream := upstream s @ [(rid, url req)],
         promises := (promises s)(rid \<mapsto> Pending),
         pendingRequests := (pendingRequests s)(url req \<mapsto> rid),
         routes := (routes s)(rid \<mapsto> AwaitingFetch (url req))\<rparr>"
      by (intro handler_owner) simp_all
    show ?thesis
    proof (cases "r = rid")
      case True
      then show ?thesis using a h by simp
    next
      case False
      then have old: "routes s r = Some (AwaitingFetch k)" using a h by simp
      then have "pendingRequests s k = Some r" using inv by blast
      moreover from this have "k \<noteq> url req" using \<open>?owner\<close> by auto
      ultimately show ?thesis using h by simp
    qed
  next
    case False
    then have p: "pendingRequests (handler cfg tgt rid req now s) = pendingRequests s"
      using d by (auto simp: handler_def setRoute_def Let_def split: option.split)
    from False have "routes (handler cfg tgt rid req now s) rid \<noteq> Some (AwaitingFetch k)"
      using d by (auto simp: handler_def setRoute_def Let_def waiterResumes_not_owner split: option.split)
    moreover have "r \<noteq> rid \<Longrightarrow> routes (handler cfg tgt rid req now s) r = routes s r"
      by (auto simp: handler_def setRoute_def Let_def split: option.split)
    ultimately have "routes s r = Some (AwaitingFetch k)" using a by (cases "r = rid") auto
    then show ?thesis using inv p by simp
  qed
qed

lemma fetchSettles_owners_registered:
  assumes inv: "\<forall>r k. routes s r = Some (AwaitingFetch k) \<longrightarrow> pendingRequests s k = Some r"
  shows "\<forall>r k. routes (fetchSettles cfg rid outcome now s) r = Some (AwaitingFetch k) \<longrightarrow>
           pendingRequests (fetchSettles cfg rid outcome now s) k = Some r"
proof (cases "\<exists>key. routes s rid = Some (AwaitingFetch key)")
  case False
  then show ?thesis using inv by (simp add: fetchSettles_other)
next
  case True
  then obtain key where key: "routes s rid = Some (AwaitingFetch key)" by blast
  note fs = fetchSettles_owner[OF key, of cfg outcome now]
  show ?thesis
  proof (intro allI impI)
    fix r k
    assume a: "routes (fetchSettles cfg rid outcome now s) r = Some (AwaitingFetch k)"
    have "r \<noteq> rid"
      using a fs ownerResumes_settled[OF requestPromise_not_pending] by auto
    then have old: "routes s r = Some (AwaitingFetch k)"
      using a fs waiterResumes_not_owner by (auto split: if_splits)
    then have pk: "pendingRequests s k = Some r" using inv by blast
    have "pendingRequests s key = Some rid" using inv key by blast
    then have "k \<noteq> key" using pk \<open>r \<noteq> rid\<close> by auto
    then show "pendingRequests (fetchSettles cfg rid outcome now s) k = Some r"
      using fs pk by (simp add: requestPromise_pending)
  qed
qed

lemma run_owners_registered:
  assumes d: "DEDUP_ENABLED cfg"
  shows "\<forall>r k. routes s r = Some (AwaitingFetch k) \<longrightarrow> pendingRequests s k = Some r \<Longrightarrow>
         \<forall>r k. routes (run cfg tgt s evs) r = Some (AwaitingFetch k) \<longrightarrow>
           pendingRequests (run cfg tgt s evs) k = Some r"
proof (induction evs arbitrary: s)
  case Nil
  then show ?case by (simp add: run_def)
next
  case (Cons ev evs)
  have "\<forall>r k. routes (step cfg tgt s ev) r = Some (AwaitingFetch k) \<longrightarrow>
           pendingRequests (step cfg tgt s ev) k = Some r"
  proof (cases ev)
    case (Intercept rid req now)
    then show ?thesis using handler_owners_registered[OF d Cons.prems] Cons.prems by simp
  next
    case (Settle rid outcome now)
    then show ?thesis using fetchSettles_owners_registered[OF Cons.prems] by simp
  qed
  from Cons.IH[OF this] show ?case by (simp add: run_def)
qed

lemma routes_loadCache: "routes (loadCache cfg now file) = Map.empty"
  by (simp add: loadCache_def initial_def evictLRU_frame Let_def split: option.split file_content.split)

subsection \<open>While a fetch is pending\<close>

lemma evictLRU_cache_subset: "set (httpCache (evictLRU cfg s)) \<subseteq> set (httpCache s)"
proof (cases "stillNeedsEviction cfg (httpCache s)")
  case False
  then show ?thesis by (simp add: evictLRU_noop)
next
  case True
  then obtain l n where l: "evictLoop cfg (map fst (sortedEntries (httpCache s))) (httpCache s) 0 = (l, n)"
    and res: "httpCache (evictLRU cfg s) = l"
    by (rule evictLRU_cases)
  from evictLoop_spec[OF l] obtain k where
    "l = fold AList.delete (take k (map fst (sortedEntries (httpCache s)))) (httpCache s)"
    by auto
  then show ?thesis using res by (simp add: fold_delete_filter)
qed

lemma map_of_None_subset:
  assumes "map_of c k = None" "set c' \<subseteq> set c"
  shows "map_of c' k = None"
  using assms by (auto simp: map_of_eq_None_iff)

lemma put_other_key:
  assumes "k \<noteq> key" "map_of (httpCache s) key = None"
  shows "map_of (httpCache (put cfg k st hs b now s)) key = None"
proof -
  have "map_of (httpCache (evictLRU cfg s)) key = None"
    using assms(2) evictLRU_cache_subset by (rule map_of_None_subset)
  then show ?thesis using assms(1) by (simp add: put_def Let_def update_conv')
qed

lemma requestPromise_cache_other:
  assumes "k \<noteq> key" "map_of (httpCache s) key = None"
  shows "map_of (httpCache (fst (requestPromise cfg k outcome now s))) key = None"
  using assms by (simp add: requestPromise_def Let_def put_other_key split: fetch_outcome.split)

lemma handler_while_pending:
  assumes d: "DEDUP_ENABLED cfg"
    and p: "pendingRequests s key = Some owner"
    and pr: "promises s owner = Some Pending"
    and ro: "routes s owner = Some (AwaitingFetch key)"
    and m: "map_of (httpCache s) key = None"
    and fresh: "routes s r = None"
  shows "pendingRequests (handler cfg tgt r q t s) key = Some owner"
    "promises (handler cfg tgt r q t s) owner = Some Pending"
    "map_of (httpCache (handler cfg tgt r q t s)) key = None"
    "filter (\<lambda>e. snd e = key) (upstream (handler cfg tgt r q t s)) =
       filter (\<lambda>e. snd e = key) (upstream s)"
    "\<forall>r'. r' \<noteq> r \<longrightarrow> routes (handler cfg tgt r q t s) r' = routes s r'"
proof -
  have ne: "r \<noteq> owner" using ro fresh by auto
  show "pendingRequests (handler cfg tgt r q t s) key = Some owner"
    using d p by (auto simp: handler_def setRoute_def Let_def split: option.split)
  show "promises (handler cfg tgt r q t s) owner = Some Pending"
    using pr ne by (auto simp: handler_def setRoute_def Let_def split: option.split)
  show "map_of (httpCache (handler cfg tgt r q t s)) key = None"
    using m by (auto simp: handler_def setRoute_def Let_def update_conv' split: option.split)
  show "filter (\<lambda>e. snd e = key) (upstream (handler cfg tgt r q t s)) =
       filter (\<lambda>e. snd e = key) (upstream s)"
    using d p by (auto simp: handler_def setRoute_def Let_def split: option.split)
  show "\<forall>r'. r' \<noteq> r \<longrightarrow> routes (handler cfg tgt r q t s) r' = routes s r'"
    by (auto simp: handler_def setRoute_def Let_def split: option.split)
qed

lemma fetchSettles_while_pending:
  assumes p: "pendingRequests s key = Some owner"
    and pr: "promises s owner = Some Pending"
    and ro: "routes s owner = Some (AwaitingFetch key)"
    and m: "map_of (httpCache s) key = None"
    and inv: "\<forall>r k. routes s r = Some (AwaitingFetch k) \<longrightarrow> pendingRequests s k = Some r"
    and ne: "rid \<noteq> owner"
  shows "pendingRequests (fetchSettles cfg rid outcome now s) key = Some owner \<and>
    promises (fetchSettles cfg rid outcome now s) owner = Some Pending \<and>
    routes (fetchSettles cfg rid outcome now s) owner = Some (AwaitingFetch key) \<and>
    map_of (httpCache (fetchSettles cfg rid outcome now s)) key = None \<and>
    upstream (fetchSettles cfg rid outcome now s) = upstream s \<and>
    (\<forall>r. routes s r = Some (AwaitingPending owner) \<longrightarrow>
       routes (fetchSettles cfg rid outcome now s) r = Some (AwaitingPending owner)) \<and>
    (\<forall>r. routes s r = None \<longrightarrow> routes (fetchSettles cfg rid outcome now s) r = None)"
proof (cases "\<exists>k. routes s rid = Some (AwaitingFetch k)")
  case False
  then have same: "fetchSettles cfg rid outcome now s = s" by (simp add: fetchSettles_other)
  show ?thesis using p pr ro m by (simp add: same)
next
  case True
  then obtain k where k: "routes s rid = Some (AwaitingFetch k)" by blast
  then have "pendingRequests s k = Some rid" using inv by blast
  then have kk: "k \<noteq> key" using p ne by auto
  note fs = fetchSettles_owner[OF k, of cfg outcome now]
  have a1: "pendingRequests (fetchSettles cfg rid outcome now s) key = Some owner"
    using p kk by (simp add: fs requestPromise_pending)
  have a2: "promises (fetchSettles cfg rid outcome now s) owner = Some Pending"
    using pr ne by (simp add: fs)
  have a3: "routes (fetchSettles cfg rid outcome now s) owner = Some (AwaitingFetch key)"
    using ro ne by (simp add: fs)
  have a4: "map_of (httpCache (fetchSettles cfg rid outcome now s)) key = None"
    using requestPromise_cache_other[OF kk m] by (simp add: fs)
  have a5: "upstream (fetchSettles cfg rid outcome now s) = upstream s"
    by (simp add: fs requestPromise_frame)
  have a6: "\<forall>r. routes s r = Some (AwaitingPending owner) \<longrightarrow>
       routes (fetchSettles cfg rid outcome now s) r = Some (AwaitingPending owner)"
    using ne k by (auto simp: fs)
  have a7: "\<forall>r. routes s r = None \<longrightarrow> routes (fetchSettles cfg rid outcome now s) r = None"
    using k by (auto simp: fs)
  show ?thesis using a1 a2 a3 a4 a5 a6 a7 by blast
qed

lemma step_while_pending:
  assumes nb: "resourceType req \<notin> set blockedResourceTypes"
      "\<not> (DOMAIN_BLOCKING_ENABLED cfg \<and> isBlockedDomain (url req))"
    and c: "cacheable cfg tgt req" and d: "DEDUP_ENABLED cfg"
    and p: "pendingRequests s (url req) = Some owner"
    and pr: "promises s owner = Some Pending"
    and ro: "routes s owner = Some (AwaitingFetch (url req))"
    and m: "map_of (httpCache s) (url req) = None"
    and inv: "\<forall>r k. routes s r = Some (AwaitingFetch k) \<longrightarrow> pendingRequests s k = Some r"
    and noset: "\<forall>outcome t. ev \<noteq> Settle owner outcome t"
  shows "pendingRequests (step cfg tgt s ev) (url req) = Some owner \<and>
    promises (step cfg tgt s ev) owner = Some Pending \<and>
    routes (step cfg tgt s ev) owner = Some (AwaitingFetch (url req)) \<and>
    map_of (httpCache (step cfg tgt s ev)) (url req) = None \<and>
    (\<forall>r k. routes (step cfg tgt s ev) r = Some (AwaitingFetch k) \<longrightarrow>
       pendingRequests (step cfg tgt s ev) k = Some r) \<and>
    filter (\<lambda>e. snd e = url req) (upstream (step cfg tgt s ev)) =
      filter (\<lambda>e. snd e = url req) (upstream s) \<and>
    (\<forall>r. routes s r = Some (AwaitingPending owner) \<longrightarrow>
       routes (step cfg tgt s ev) r = Some (AwaitingPending owner)) \<and>
    (\<forall>r. routes s r = None \<longrightarrow> (\<forall>q t. ev \<noteq> Intercept r q t) \<longrightarrow>
       routes (step cfg tgt s ev) r = None) \<and>
    (\<forall>r t. ev = Intercept r req t \<longrightarrow> routes s r = None \<longrightarrow>
       routes (step cfg tgt s ev) r = Some (AwaitingPending owner))"
proof (cases ev)
  case (Settle rid outcome now)
  then have ne: "rid \<noteq> owner" using noset by auto
  have st: "step cfg tgt s ev = fetchSettles cfg rid outcome now s" using Settle by simp
  show ?thesis
    unfolding st
    using fetchSettles_while_pending[OF p pr ro m inv ne, of cfg outcome now]
      fetchSettles_owners_registered[OF inv, of cfg rid outcome now] Settle
    by simp
next
  case (Intercept r q t)
  show ?thesis
  proof (cases "routes s r = None")
    case False
    then have "step cfg tgt s ev = s" using Intercept by auto
    then show ?thesis using p pr ro m inv False Intercept by auto
  next
    case True
    then have st: "step cfg tgt s ev = handler cfg tgt r q t s" using Intercept by simp
    have ne: "r \<noteq> owner" using ro True by auto
    note h = handler_while_pending[where tgt = tgt and q = q and t = t, OF d p pr ro m True]
    have a3: "routes (handler cfg tgt r q t s) owner = Some (AwaitingFetch (url req))"
      using h(5) ne ro by simp
    have a5: "\<forall>r' k. routes (handler cfg tgt r q t s) r' = Some (AwaitingFetch k) \<longrightarrow>
       pendingRequests (handler cfg tgt r q t s) k = Some r'"
      by (rule handler_owners_registered[OF d inv])
    have a7: "\<forall>r'. routes s r' = Some (AwaitingPending owner) \<longrightarrow>
       routes (handler cfg tgt r q t s) r' = Some (AwaitingPending owner)"
      using h(5) True by (metis option.distinct(1))
    have a8: "\<forall>r'. routes s r' = None \<longrightarrow> (\<forall>q' t'. ev \<noteq> Intercept r' q' t') \<longrightarrow>
       routes (handler cfg tgt r q t s) r' = None"
      using h(5) Intercept by auto
    have a9: "\<forall>r' t'. ev = Intercept r' req t' \<longrightarrow> routes s r' = None \<longrightarrow>
       routes (handler cfg tgt r q t s) r' = Some (AwaitingPending owner)"
    proof (intro allI impI)
      fix r' t'
      assume e: "ev = Intercept r' req t'"
      then have "r' = r" "q = req" "t' = t" using Intercept by simp_all
      moreover have "promiseState s owner = Pending" using pr by (simp add: promiseState_def)
      ultimately show "routes (handler cfg tgt r q t s) r' = Some (AwaitingPending owner)"
        using handler_waiter[OF nb c m d p, of r t] by simp
    qed
    show ?thesis unfolding st using h(1,2,3,4) a3 a5 a7 a8 a9 by blast
  qed
qed

lemma run_while_pending:
  assumes nb: "resourceType req \<notin> set blockedResourceTypes"
      "\<not> (DOMAIN_BLOCKING_ENABLED cfg \<and> isBlockedDomain (url req))"
    and c: "cacheable cfg tgt req" and d: "DEDUP_ENABLED cfg"
  shows "pendingRequests s (url req) = Some owner \<Longrightarrow>
    promises s owner = Some Pending \<Longrightarrow>
    routes s owner = Some (AwaitingFetch (url req)) \<Longrightarrow>
    map_of (httpCache s) (url req) = None \<Longrightarrow>
    \<forall>r k. routes s r = Some (AwaitingFetch k) \<longrightarrow> pendingRequests s k = Some r \<Longrightarrow>
    \<forall>ev\<in>set evs. \<forall>outcome t. ev \<noteq> Settle owner outcome t \<Longrightarrow>
    pendingRequests (run cfg tgt s evs) (url req) = Some owner \<and>
    promises (run cfg tgt s evs) owner = Some Pending \<and>
    routes (run cfg tgt s evs) owner = Some (AwaitingFetch (url req)) \<and>
    map_of (httpCache (run cfg tgt s evs)) (url req) = None \<and>
    filter (\<lambda>e. snd e = url req) (upstream (run cfg tgt s evs)) =
      filter (\<lambda>e. snd e = url req) (upstream s) \<and>
    (\<forall>r. routes s r = Some (AwaitingPending owner) \<longrightarrow>
       routes (run cfg tgt s evs) r = Some (AwaitingPending owner)) \<and>
    (\<forall>r. routes s r = None \<longrightarrow>
       (\<forall>q t. Intercept r q t \<in> set evs \<longrightarrow> q = req) \<longrightarrow>
       (\<exists>t. Intercept r req t \<in> set evs) \<longrightarrow>
       routes (run cfg tgt s evs) r = Some (AwaitingPending owner))"
proof (induction evs arbitrary: s)
  case Nil
  then show ?case by (simp add: run_def)
next
  case (Cons ev evs)
  let ?s1 = "step cfg tgt s ev"
  have noset: "\<forall>outcome t. ev \<noteq> Settle owner outcome t" using Cons.prems(6) by simp
  note st = step_while_pending[OF nb c d Cons.prems(1,2,3,4,5) noset]
  have rest: "\<forall>ev\<in>set evs. \<forall>outcome t. ev \<noteq> Settle owner outcome t"
    using Cons.prems(6) by simp
  have ih: "pendingRequests (run cfg tgt ?s1 evs) (url req) = Some owner \<and>
    promises (run cfg tgt ?s1 evs) owner = Some Pending \<and>
    routes (run cfg tgt ?s1 evs) owner = Some (AwaitingFetch (url req)) \<and>
    map_of (httpCache (run cfg tgt ?s1 evs)) (url req) = None \<and>
    filter (\<lambda>e. snd e = url req) (upstream (run cfg tgt ?s1 evs)) =
      filter (\<lambda>e. snd e = url req) (upstream ?s1) \<and>
    (\<forall>r. routes ?s1 r = Some (AwaitingPending owner) \<longrightarrow>
       routes (run cfg tgt ?s1 evs) r = Some (AwaitingPending owner)) \<and>
    (\<forall>r. routes ?s1 r = None \<longrightarrow>
       (\<forall>q t. Intercept r q t \<in> set evs \<longrightarrow> q = req) \<longrightarrow>
       (\<exists>t. Intercept r req t \<in> set evs) \<longrightarrow>
       routes (run cfg tgt ?s1 evs) r = Some (AwaitingPending owner))"
    using st rest by (intro Cons.IH) blast+
  have r: "run cfg tgt s (ev # evs) = run cfg tgt ?s1 evs" by (simp add: run_def)
  have joined: "\<forall>r. routes s r = None \<longrightarrow>
       (\<forall>q t. Intercept r q t \<in> set (ev # evs) \<longrightarrow> q = req) \<longrightarrow>
       (\<exists>t. Intercept r req t \<in> set (ev # evs)) \<longrightarrow>
       routes (run cfg tgt ?s1 evs) r = Some (AwaitingPending owner)"
  proof (intro allI impI)
    fix r
    assume f: "routes s r = None"
      and only: "\<forall>q t. Intercept r q t \<in> set (ev # evs) \<longrightarrow> q = req"
      and ex: "\<exists>t. Intercept r req t \<in> set (ev # evs)"
    show "routes (run cfg tgt ?s1 evs) r = Some (AwaitingPending owner)"
    proof (cases "\<exists>q t. ev = Intercept r q t")
      case True
      then obtain q t where e: "ev = Intercept r q t" by blast
      then have "q = req" using only by simp
      then have "routes ?s1 r = Some (AwaitingPending owner)" using st e f by blast
      then show ?thesis using ih by blast
    next
      case False
      then have "routes ?s1 r = None" using st f by blast
      moreover have "\<forall>q t. Intercept r q t \<in> set evs \<longrightarrow> q = req" using only by simp
      moreover have "\<exists>t. Intercept r req t \<in> set evs" using ex False by auto
      ultimately show ?thesis using ih by blast
    qed
  qed
  show ?case unfolding r using ih st joined by (simp only:) blast
qed

subsection \<open>Deduplication of concurrent requests\<close>

text \<open>
  Claim C1, as the code has it.  Let deduplication be enabled, let \<open>s\<close> be a state that
  a run reaches from module load, and let a cacheable request that passes the block
  rules arrive on the fresh route \<open>owner\<close> while its URL is neither cached nor a key of
  \<open>pendingRequests\<close>.  Let the same request arrive on further fresh, distinct routes
  \<open>rs\<close> before the fetch of \<open>owner\<close> settles, among any other events \<open>evs\<close> (requests on
  other routes, other fetches settling).  Then exactly one \<^verbatim>\<open>route.fetch()\<close> is issued for
  the URL, by \<open>owner\<close>; the key stays registered to \<open>owner\<close>, and every one of the other
  requests is suspended on the promise of \<open>owner\<close>.  When the fetch of \<open>owner\<close> settles,
  whatever its outcome, no further fetch is issued; when it delivers a response, all
  the requests are fulfilled with that response and the pending entry is removed.
  When the requests arrive with no other event between them, \<open>unique\<close> grows by one and
  \<open>duplicates\<close> by the number of the other requests.  Moreover, in every state a run of
  intercepts and settles reaches from module load, two routes whose own fetch for the
  same key is in flight are the same route: a key has at most one in-flight fetch, the
  one \<open>pendingRequests\<close> holds for it.
\<close>

theorem dedup_single_fetch:
  fixes cfg :: config and tgt :: target and req :: request
    and now :: int and snap :: "file_content option" and pre :: "event list"
    and owner :: nat and tOwner :: int and rs :: "(nat \<times> int) list" and evs :: "event list"
    and st :: int and hs :: headers and b :: string and tSettle :: int
  defines "key \<equiv> url req"
    and "s \<equiv> run cfg tgt (loadCache cfg now snap) pre"
  defines "s1 \<equiv> run cfg tgt s (Intercept owner req tOwner # map (\<lambda>(r, t). Intercept r req t) rs)"
    and "sg \<equiv> run cfg tgt s (Intercept owner req tOwner # evs)"
  assumes nb: "resourceType req \<notin> set blockedResourceTypes"
      "\<not> (DOMAIN_BLOCKING_ENABLED cfg \<and> isBlockedDomain (url req))"
    and c: "cacheable cfg tgt req"
    and d: "DEDUP_ENABLED cfg"
    and miss: "map_of (httpCache s) key = None"
    and nopend: "pendingRequests s key = None"
    and dist: "distinct (owner # map fst rs)"
    and fresh: "\<forall>r\<in>set (owner # map fst rs). routes s r = None"
    and noset: "\<forall>ev\<in>set evs. \<forall>outcome t. ev \<noteq> Settle owner outcome t"
    and incl: "\<forall>(r, t)\<in>set rs. Intercept r req t \<in> set evs"
    and only: "\<forall>r q t. Intercept r q t \<in> set evs \<longrightarrow> r \<in> fst ` set rs \<longrightarrow> q = req"
  shows "upstream s1 = upstream s @ [(owner, key)] \<and>
         unique (dedupStats s1) = unique (dedupStats s) + 1 \<and>
         duplicates (dedupStats s1) = duplicates (dedupStats s) + length rs \<and>
         filter (\<lambda>e. snd e = key) (upstream sg) =
           filter (\<lambda>e. snd e = key) (upstream s) @ [(owner, key)] \<and>
         pendingRequests sg key = Some owner \<and>
         routes sg owner = Some (AwaitingFetch key) \<and>
         (\<forall>r\<in>fst ` set rs. routes sg r = Some (AwaitingPending owner)) \<and>
         (\<forall>outcome. upstream (step cfg tgt sg (Settle owner outcome tSettle)) = upstream sg) \<and>
         (\<forall>r\<in>set (owner # map fst rs).
            routes (step cfg tgt sg (Settle owner (FetchResponse st hs b) tSettle)) r =
              Some (Fulfilled st hs b)) \<and>
         pendingRequests (step cfg tgt sg (Settle owner (FetchResponse st hs b) tSettle)) key = None \<and>
         (\<forall>evs' r r' k.
            routes (run cfg tgt (loadCache cfg now snap) evs') r = Some (AwaitingFetch k) \<longrightarrow>
            routes (run cfg tgt (loadCache cfg now snap) evs') r' = Some (AwaitingFetch k) \<longrightarrow>
            r = r')"
proof -
  let ?sa = "s\<lparr>cacheStats := (cacheStats s)\<lparr>misses := misses (cacheStats s) + 1\<rparr>,
       dedupStats := (dedupStats s)\<lparr>unique := unique (dedupStats s) + 1\<rparr>,
       upstream := upstream s @ [(owner, url req)],
       promises := (promises s)(owner \<mapsto> Pending),
       pendingRequests := (pendingRequests s)(url req \<mapsto> owner),
       routes := (routes s)(owner \<mapsto> AwaitingFetch (url req))\<rparr>"
  have reach: "\<forall>r k. routes (run cfg tgt (loadCache cfg now snap) evs') r = Some (AwaitingFetch k) \<longrightarrow>
           pendingRequests (run cfg tgt (loadCache cfg now snap) evs') k = Some r" for evs'
    by (rule run_owners_registered[OF d]) (simp add: routes_loadCache)
  have inv_s: "\<forall>r k. routes s r = Some (AwaitingFetch k) \<longrightarrow> pendingRequests s k = Some r"
    unfolding s_def by (rule reach)
  have own_rs: "owner \<notin> fst ` set rs" using dist by simp
  have h: "handler cfg tgt owner req tOwner s = ?sa"
    using handler_owner[OF nb c, of s owner tOwner] miss nopend by (simp add: key_def)
  have sa: "step cfg tgt s (Intercept owner req tOwner) = ?sa"
    using fresh h by simp
  have inv_sa: "\<forall>r k. routes ?sa r = Some (AwaitingFetch k) \<longrightarrow> pendingRequests ?sa k = Some r"
    using handler_owners_registered[OF d inv_s, of tgt owner req tOwner] unfolding h .
  \<comment> \<open>the requests alone\<close>
  have "run cfg tgt ?sa (map (\<lambda>(r, t). Intercept r req t) rs) =
      ?sa\<lparr>dedupStats := (dedupStats ?sa)\<lparr>duplicates := duplicates (dedupStats ?sa) + length rs\<rparr>,
          routes := (\<lambda>r. if r \<in> fst ` set rs then Some (AwaitingPending owner) else routes ?sa r)\<rparr>"
  proof (rule waiters_join[OF nb c d])
    show "map_of (httpCache ?sa) (url req) = None" using miss by (simp add: key_def)
    show "pendingRequests ?sa (url req) = Some owner" by simp
    show "promises ?sa owner = Some Pending" by simp
    show "distinct (map fst rs)" using dist by simp
    show "\<forall>r\<in>fst ` set rs. routes ?sa r = None" using fresh own_rs by auto
  qed
  then have s1: "s1 =
      ?sa\<lparr>dedupStats := (dedupStats ?sa)\<lparr>duplicates := duplicates (dedupStats ?sa) + length rs\<rparr>,
          routes := (\<lambda>r. if r \<in> fst ` set rs then Some (AwaitingPending owner) else routes ?sa r)\<rparr>"
    unfolding s1_def using sa by (simp add: run_def)
  have a1: "upstream s1 = upstream s @ [(owner, key)]"
    and a2: "unique (dedupStats s1) = unique (dedupStats s) + 1"
    and a3: "duplicates (dedupStats s1) = duplicates (dedupStats s) + length rs"
    by (simp_all add: s1 key_def)
  \<comment> \<open>the requests among other events\<close>
  have sg: "sg = run cfg tgt ?sa evs"
    unfolding sg_def using sa by (simp add: run_def)
  have g: "pendingRequests sg (url req) = Some owner \<and>
    promises sg owner = Some Pending \<and>
    routes sg owner = Some (AwaitingFetch (url req)) \<and>
    map_of (httpCache sg) (url req) = None \<and>
    filter (\<lambda>e. snd e = url req) (upstream sg) =
      filter (\<lambda>e. snd e = url req) (upstream ?sa) \<and>
    (\<forall>r. routes ?sa r = Some (AwaitingPending owner) \<longrightarrow>
       routes sg r = Some (AwaitingPending owner)) \<and>
    (\<forall>r. routes ?sa r = None \<longrightarrow>
       (\<forall>q t. Intercept r q t \<in> set evs \<longrightarrow> q = req) \<longrightarrow>
       (\<exists>t. Intercept r req t \<in> set evs) \<longrightarrow>
       routes sg r = Some (AwaitingPending owner))"
    unfolding sg
  proof (rule run_while_pending[OF nb c d])
    show "pendingRequests ?sa (url req) = Some owner" by simp
    show "promises ?sa owner = Some Pending" by simp
    show "routes ?sa owner = Some (AwaitingFetch (url req))" by simp
    show "map_of (httpCache ?sa) (url req) = None" using miss by (simp add: key_def)
    show "\<forall>r k. routes ?sa r = Some (AwaitingFetch k) \<longrightarrow> pendingRequests ?sa k = Some r"
      by (rule inv_sa)
    show "\<forall>ev\<in>set evs. \<forall>outcome t. ev \<noteq> Settle owner outcome t" by (rule noset)
  qed
  have b1: "filter (\<lambda>e. snd e = key) (upstream sg) =
           filter (\<lambda>e. snd e = key) (upstream s) @ [(owner, key)]"
    using g by (simp add: key_def)
  have b2: "pendingRequests sg key = Some owner" using g by (simp add: key_def)
  have b3: "routes sg owner = Some (AwaitingFetch key)" using g by (simp add: key_def)
  have b4: "\<forall>r\<in>fst ` set rs. routes sg r = Some (AwaitingPending owner)"
  proof
    fix r assume r: "r \<in> fst ` set rs"
    then have "routes ?sa r = None" using fresh own_rs by auto
    moreover have "\<forall>q t. Intercept r q t \<in> set evs \<longrightarrow> q = req" using only r by blast
    moreover have "\<exists>t. Intercept r req t \<in> set evs" using incl r by fastforce
    ultimately show "routes sg r = Some (AwaitingPending owner)" using g by blast
  qed
  note fs = fetchSettles_owner[OF b3, of cfg _ tSettle]
  have c1: "\<forall>outcome. upstream (step cfg tgt sg (Settle owner outcome tSettle)) = upstream sg"
    by (simp add: fs requestPromise_frame)
  have c2: "\<forall>r\<in>set (owner # map fst rs).
            routes (step cfg tgt sg (Settle owner (FetchResponse st hs b) tSettle)) r =
              Some (Fulfilled st hs b)"
    using b4 by (auto simp: fs requestPromise_settled)
  have c3: "pendingRequests (step cfg tgt sg (Settle owner (FetchResponse st hs b) tSettle)) key = None"
    by (simp add: fs requestPromise_pending)
  have inv: "\<forall>evs' r r' k.
            routes (run cfg tgt (loadCache cfg now snap) evs') r = Some (AwaitingFetch k) \<longrightarrow>
            routes (run cfg tgt (loadCache cfg now snap) evs') r' = Some (AwaitingFetch k) \<longrightarrow>
            r = r'"
    using reach by (metis option.inject)
  show ?thesis using a1 a2 a3 b1 b2 b3 b4 c1 c2 c3 inv by blast
qed

text \<open>
  Five requests for one URL.  Alone: one fetch, four duplicates, one unique.  Among a
  request for another page and the settling of its fetch: one fetch for the URL, the
  others suspended on it and fulfilled with its response.
\<close>

theorem dedup_single_fetch_witness:
  defines "s \<equiv> run defaultConfig Amazon (loadCache defaultConfig 0 None) []"
    and "rs \<equiv> [(2, 11), (3, 13), (4, 15), (5 :: nat, 16 :: int)]"
  defines "s1 \<equiv> run defaultConfig Amazon s
                   (Intercept 1 pageRequest 10 # map (\<lambda>(r, t). Intercept r pageRequest t) rs)"
    and "sg \<equiv> run defaultConfig Amazon s (Intercept 1 pageRequest 10 # amongOtherEvents)"
  shows "resourceType pageRequest \<notin> set blockedResourceTypes \<and>
   \<not> (DOMAIN_BLOCKING_ENABLED defaultConfig \<and> isBlockedDomain (url pageRequest)) \<and>
   cacheable defaultConfig Amazon pageRequest \<and>
   DEDUP_ENABLED defaultConfig \<and>
   map_of (httpCache s) (url pageRequest) = None \<and>
   pendingRequests s (url pageRequest) = None \<and>
   distinct (1 # map fst rs) \<and>
   list_all (\<lambda>r. routes s r = None) (1 # map fst rs) \<and>
   list_all (\<lambda>(r, t). Intercept r pageRequest t \<in> set amongOtherEvents) rs \<and>
   upstream s1 = [(1, url pageRequest)] \<and>
   duplicates (dedupStats s1) = 4 \<and>
   unique (dedupStats s1) = 1 \<and>
   filter (\<lambda>e. snd e = url pageRequest) (upstream sg) = [(1, url pageRequest)] \<and>
   routes sg 5 = Some (AwaitingPending 1) \<and>
   routes (step defaultConfig Amazon sg (Settle 1 (FetchResponse 200 [] ''ok'') 20)) 5 =
     Some (Fulfilled 200 [] ''ok'')"
proof -
  have h1: "resourceType pageRequest \<notin> set blockedResourceTypes" by code_simp
  have h2: "\<not> (DOMAIN_BLOCKING_ENABLED defaultConfig \<and> isBlockedDomain (url pageRequest))"
    by code_simp
  have h3: "cacheable defaultConfig Amazon pageRequest" by code_simp
  have h4: "DEDUP_ENABLED defaultConfig" by code_simp
  have h5: "map_of (httpCache s) (url pageRequest) = None" unfolding s_def by code_simp
  have h6: "pendingRequests s (url pageRequest) = None" unfolding s_def by code_simp
  have h7: "distinct (1 # map fst rs)" unfolding rs_def by simp
  have l8: "list_all (\<lambda>r. routes s r = None) (1 # map fst rs)"
    unfolding s_def rs_def by code_simp
  then have h8: "\<forall>r\<in>set (1 # map fst rs). routes s r = None" by (simp add: list_all_iff)
  have h9: "\<forall>ev\<in>set amongOtherEvents. \<forall>outcome t. ev \<noteq> Settle 1 outcome t"
    by (simp add: amongOtherEvents_def)
  have l10: "list_all (\<lambda>(r, t). Intercept r pageRequest t \<in> set amongOtherEvents) rs"
    unfolding rs_def by (simp add: amongOtherEvents_def)
  then have h10: "\<forall>(r, t)\<in>set rs. Intercept r pageRequest t \<in> set amongOtherEvents"
    by (simp add: list_all_iff)
  have h11: "\<forall>r q t. Intercept r q t \<in> set amongOtherEvents \<longrightarrow> r \<in> fst ` set rs \<longrightarrow> q = pageRequest"
    unfolding rs_def by (auto simp: amongOtherEvents_def)
  note t = dedup_single_fetch[where cfg = defaultConfig and tgt = Amazon and req = pageRequest
      and now = 0 and snap = None and pre = "[]" and owner = 1 and tOwner = 10 and rs = rs
      and evs = amongOtherEvents and st = 200 and hs = "[]" and b = "''ok''" and tSettle = 20,
      folded s_def, OF h1 h2 h3 h4 h5 h6 h7 h8 h9 h10 h11, folded s1_def sg_def]
  have z: "upstream s = []" "duplicates (dedupStats s) = 0" "unique (dedupStats s) = 0"
    unfolding s_def by code_simp+
  have c1: "upstream s1 = [(1, url pageRequest)]" using t z by simp
  have c2: "duplicates (dedupStats s1) = 4" using t z by (simp add: rs_def)
  have c3: "unique (dedupStats s1) = 1" using t z by simp
  have c4: "filter (\<lambda>e. snd e = url pageRequest) (upstream sg) = [(1, url pageRequest)]"
    using t z by simp
  have c5: "routes sg 5 = Some (AwaitingPending 1)" using t by (simp add: rs_def)
  have c6: "routes (step defaultConfig Amazon sg (Settle 1 (FetchResponse 200 [] ''ok'') 20)) 5 =
     Some (Fulfilled 200 [] ''ok'')" using t by (simp add: rs_def)
  show ?thesis using h1 h2 h3 h4 h5 h6 h7 l8 l10 c1 c2 c3 c4 c5 c6 by blast
qed

text \<open>
  The claim as stated fails when deduplication is switched off
  (\<^verbatim>\<open>PLAYWRIGHT_DEDUP=false\<close>): the \<^verbatim>\<open>has\<close> test is skipped and each of two concurrent
  identical requests issues its own fetch.
\<close>

theorem dedup_disabled_counterexample:
  "cacheable (defaultConfig\<lparr>DEDUP_ENABLED := False\<rparr>) Amazon pageRequest \<and>
   upstream (run (defaultConfig\<lparr>DEDUP_ENABLED := False\<rparr>) Amazon (initial None)
      [Intercept 1 pageRequest 10, Intercept 2 pageRequest 11]) =
     [(1, url pageRequest), (2, url pageRequest)] \<and>
   duplicates (dedupStats (run (defaultConfig\<lparr>DEDUP_ENABLED := False\<rparr>) Amazon (initial None)
      [Intercept 1 pageRequest 10, Intercept 2 pageRequest 11])) = 0 \<and>
   unique (dedupStats (run (defaultConfig\<lparr>DEDUP_ENABLED := False\<rparr>) Amazon (initial None)
      [Intercept 1 pageRequest 10, Intercept 2 pageRequest 11])) = 2"
  by code_simp

subsection \<open>Cache hit after a successful response\<close>






subsection \<open>Failed fetches\<close>

text \<open>
  Claim C3 at a failing input.  The fetch of route 1 is rejected (the promise of
  \<^verbatim>\<open>route.fetch()\<close> rejects, so the anonymous function ends at the \<^verbatim>\<open>await\<close>, before
  \<^verbatim>\<open>pendingRequests.delete(key)\<close>); an identical request on route 2 follows.  The pending
  entry of the key is still the rejected promise of route 1, route 2 joins it and
  throws, and no second fetch is issued.
\<close>

theorem rejected_fetch_keeps_pending_entry:
  "pendingRequests (run defaultConfig Amazon (initial None) rejectedThenRetried) (url pageRequest) = Some 1 \<and>
   promises (run defaultConfig Amazon (initial None) rejectedThenRetried) 1 = Some Rejected \<and>
   routes (run defaultConfig Amazon (initial None) rejectedThenRetried) 2 = Some Threw \<and>
   upstream (run defaultConfig Amazon (initial None) rejectedThenRetried) = [(1, url pageRequest)]"
  by code_simp

text \<open>
  Claim C4 at failing inputs.  Route 2 waits on the fetch of route 1.  When that fetch
  resolves empty, route 1 falls back to \<^verbatim>\<open>route.continue()\<close> and route 2 throws (it reads
  \<^verbatim>\<open>pendingResponse.status\<close> of \<^verbatim>\<open>null\<close>); when the fetch is rejected, both throw.
\<close>

theorem failed_fetch_waiter_throws:
  "routes (run defaultConfig Amazon (initial None) emptyWithWaiter) 1 = Some Continued \<and>
   routes (run defaultConfig Amazon (initial None) emptyWithWaiter) 2 = Some Threw \<and>
   routes (run defaultConfig Amazon (initial None) rejectedWithWaiter) 1 = Some Threw \<and>
   routes (run defaultConfig Amazon (initial None) rejectedWithWaiter) 2 = Some Threw"
  by code_simp

text \<open>
  A fetch that settles without an exception (an empty response or a response) frees
  the pending entry of its key.
\<close>

theorem settled_fetch_frees_slot:
  assumes "routes s rid = Some (AwaitingFetch key)" "outcome \<noteq> FetchRejected"
  shows "pendingRequests (fetchSettles cfg rid outcome now s) key = None"
  using assms by (simp add: fetchSettles_owner requestPromise_pending)

theorem settled_fetch_frees_slot_witness:
  "routes afterFirstRequest 1 = Some (AwaitingFetch (url pageRequest)) \<and>
   FetchEmpty \<noteq> FetchRejected \<and>
   pendingRequests afterFirstRequest (url pageRequest) = Some 1 \<and>
   pendingRequests (fetchSettles defaultConfig 1 FetchEmpty 11 afterFirstRequest) (url pageRequest) = None"
proof -
  have h1: "routes afterFirstRequest 1 = Some (AwaitingFetch (url pageRequest))" by code_simp
  have h2: "FetchEmpty \<noteq> FetchRejected" by simp
  have h3: "pendingRequests afterFirstRequest (url pageRequest) = Some 1" by code_simp
  show ?thesis
    using settled_fetch_frees_slot[OF h1 h2, of defaultConfig 11] h1 h3 by simp
qed

text \<open>
  The body a cache hit serves (\<^verbatim>\<open>Buffer.from(cached.body, 'base64')\<close>) is, byte for byte,
  the buffer that was stored (\<^verbatim>\<open>bodyBuffer.toString('base64')\<close>).
\<close>

theorem cached_body_round_trip: "fromBase64 (toBase64 bodyBuffer) = bodyBuffer"
  by (rule fromBase64_toBase64)

end
